theory Spec2Isabelle
  imports Main "HOL-Library.Word"
begin

unbundle bit_operations_syntax

section \<open>Errors\<close>

text \<open>
  The exceptions the serializers can raise, as values. \<open>ValueError\<close> and
  \<open>BinasciiError\<close> come out of the base64 codec, \<open>IndexError\<close> out of indexing a
  short sequence, \<open>AttributeError\<close> out of an attribute access on \<open>None\<close>;
  \<open>DoesNotExist\<close>, \<open>MultipleObjectsReturned\<close> and \<open>IntegrityError\<close> are the
  object-relational mapper's.
\<close>

datatype error = IndexError | AttributeError | ValueError | BinasciiError
  | DoesNotExist | MultipleObjectsReturned | IntegrityError

type_synonym byte = "8 word"

section \<open>Codec: \<open>b64encode\<close> and \<open>b64decode\<close>\<close>

text \<open>
  \<open>b64encode\<close> and \<open>b64decode\<close> call the standard library's
  \<open>base64.urlsafe_b64encode\<close> and \<open>base64.urlsafe_b64decode\<close>. The library is
  embedded here as it computes: the encoder turns every three bytes into four sextets, pads a
  last group of one or two bytes with \<open>=\<close>, and maps the sextets through the alphabet; the
  decoder is the non-strict loop of \<open>binascii.a2b_base64\<close>, which skips characters outside
  the alphabet, stops at a complete pad sequence and fails when the data ends inside a quad.
\<close>

definition table_b2a_base64 :: string where
  "table_b2a_base64 =
     ''ABCDEFGHIJKLMNOPQRSTUVWXYZabcdefghijklmnopqrstuvwxyz0123456789+/''"

definition b2a :: "byte \<Rightarrow> char" where
  "b2a this_ch = table_b2a_base64 ! unat this_ch"

fun b2a_base64 :: "byte list \<Rightarrow> string" where
  "b2a_base64 [] = []"
| "b2a_base64 [a] =
     [b2a (drop_bit 2 a), b2a (push_bit 4 (a AND 3)), CHR ''='', CHR ''='']"
| "b2a_base64 [a, b] =
     [b2a (drop_bit 2 a), b2a (push_bit 4 (a AND 3) OR drop_bit 4 b),
      b2a (push_bit 2 (b AND 15)), CHR ''='']"
| "b2a_base64 (a # b # c # rest) =
     [b2a (drop_bit 2 a), b2a (push_bit 4 (a AND 3) OR drop_bit 4 b),
      b2a (push_bit 2 (b AND 15) OR drop_bit 6 c), b2a (c AND 63)] @ b2a_base64 rest"

definition urlsafe_encode_translation :: "char \<Rightarrow> char" where
  "urlsafe_encode_translation c =
     (if c = CHR ''+'' then CHR ''-'' else if c = CHR ''/'' then CHR ''_'' else c)"

definition urlsafe_decode_translation :: "char \<Rightarrow> char" where
  "urlsafe_decode_translation c =
     (if c = CHR ''-'' then CHR ''+'' else if c = CHR ''_'' then CHR ''/'' else c)"

definition urlsafe_b64encode :: "byte list \<Rightarrow> string" where
  "urlsafe_b64encode s = map urlsafe_encode_translation (b2a_base64 s)"

text \<open>\<open>str.strip(chars)\<close> with a single character: it is removed from both ends.\<close>

definition strip :: "char \<Rightarrow> string \<Rightarrow> string" where
  "strip c s = rev (dropWhile (\<lambda>x. x = c) (rev (dropWhile (\<lambda>x. x = c) s)))"

text \<open>\<^verbatim>\<open>return base64.urlsafe_b64encode(value).decode('ascii').strip('=')\<close>\<close>

definition b64encode :: "byte list \<Rightarrow> string" where
  "b64encode v = strip (CHR ''='') (urlsafe_b64encode v)"

definition table_a2b_base64 :: "char \<Rightarrow> byte option" where
  "table_a2b_base64 c = map_of (zip table_b2a_base64 (map of_nat [0..<64])) c"

fun a2b_loop :: "nat \<Rightarrow> byte \<Rightarrow> nat \<Rightarrow> byte list \<Rightarrow> string \<Rightarrow> error + byte list" where
  "a2b_loop quad_pos leftchar pads bin_data [] =
     (if quad_pos \<noteq> 0 then Inl BinasciiError else Inr bin_data)"
| "a2b_loop quad_pos leftchar pads bin_data (c # ascii_data) =
     (if c = CHR ''='' then
        (if quad_pos \<ge> 2 \<and> quad_pos + (pads + 1) \<ge> 4 then Inr bin_data
         else a2b_loop quad_pos leftchar (if quad_pos \<ge> 2 then pads + 1 else pads)
                bin_data ascii_data)
      else
        (case table_a2b_base64 c of
           None \<Rightarrow> a2b_loop quad_pos leftchar pads bin_data ascii_data
         | Some this_ch \<Rightarrow>
             (if quad_pos = 0 then a2b_loop 1 this_ch 0 bin_data ascii_data
              else if quad_pos = 1 then
                a2b_loop 2 (this_ch AND 15) 0
                  (bin_data @ [push_bit 2 leftchar OR drop_bit 4 this_ch]) ascii_data
              else if quad_pos = 2 then
                a2b_loop 3 (this_ch AND 3) 0
                  (bin_data @ [push_bit 4 leftchar OR drop_bit 2 this_ch]) ascii_data
              else
                a2b_loop 0 0 0
                  (bin_data @ [push_bit 6 leftchar OR this_ch]) ascii_data)))"

definition a2b_base64 :: "string \<Rightarrow> error + byte list" where
  "a2b_base64 s = a2b_loop 0 0 0 [] s"

text \<open>
  \<open>urlsafe_b64decode\<close> of a \<open>str\<close>: the text is encoded to ASCII first (a character
  outside ASCII raises \<open>ValueError\<close>), then translated and decoded.
\<close>

definition urlsafe_b64decode :: "string \<Rightarrow> error + byte list" where
  "urlsafe_b64decode s =
     (if filter (\<lambda>c. (128::nat) \<le> of_char c) s \<noteq> [] then Inl ValueError
      else a2b_base64 (map urlsafe_decode_translation s))"

text \<open>
  \<^verbatim>\<open>data += "=" * ((4 - len(data) % 4) % 4)\<close>
  \<^verbatim>\<open>return base64.urlsafe_b64decode(data)\<close>
\<close>

definition b64decode :: "string \<Rightarrow> error + byte list" where
  "b64decode data =
     urlsafe_b64decode (data @ replicate ((4 - length data mod 4) mod 4) (CHR ''=''))"

section \<open>Data model\<close>

text \<open>
  The rows of \<open>models\<close>, with the fields the serializers read and write. A primary key
  is a natural number; a foreign key holds the primary key of the row it points to.
\<close>

type_synonym pk = nat
type_synonym user = nat

text \<open>\<open>models.CollectionMember.AccessLevels\<close>; the serializers name \<open>ADMIN\<close> only.\<close>

datatype AccessLevels = ADMIN | READ_WRITE | READ_ONLY

record Collection =
  col_id :: pk
  col_uid :: string
  col_version :: int
  col_owner :: "user option"
  col_mainItem :: "pk option"

record CollectionItem =
  item_id :: pk
  item_uid :: "string option"
  item_encryptionKey :: "byte list option"
  item_version :: int
  item_collection :: "pk option"

record CollectionItemChunk =
  chunk_id :: pk
  chunk_uid :: string
  chunk_item :: pk
  chunk_chunkFile :: nat

record CollectionItemRevision =
  rev_id :: pk
  rev_uid :: string
  rev_meta :: "byte list"
  rev_deleted :: bool
  rev_current :: "bool option"
  rev_item :: pk

record RevisionChunkRelation =
  rel_id :: pk
  rel_chunk :: pk
  rel_revision :: pk

record CollectionMember =
  mem_id :: pk
  mem_collection :: pk
  mem_user :: "user option"
  mem_accessLevel :: AccessLevels
  mem_encryptionKey :: "byte list"

text \<open>The tables of the database: what a transaction commits or rolls back.\<close>

record db =
  collections :: "Collection list"
  items :: "CollectionItem list"
  chunks :: "CollectionItemChunk list"
  revisions :: "CollectionItemRevision list"
  relations :: "RevisionChunkRelation list"
  members :: "CollectionMember list"

text \<open>
  The state the serializers work on: the tables, the sequence that issues primary keys, and
  the file storage behind \<open>chunkFile\<close>. One sequence serves all tables: what matters
  is that a new key is above the keys in use. The storage keeps every file it was given; a
  file's name is its position. Neither the sequence nor the storage takes part in a
  transaction.
\<close>

record state =
  tables :: db
  next_pk :: pk
  storage :: "byte list list"

definition empty_state :: state where
  "empty_state =
     \<lparr>tables = \<lparr>collections = [], items = [], chunks = [], revisions = [], relations = [],
                 members = []\<rparr>,
      next_pk = 1, storage = []\<rparr>"

text \<open>
  What \<open>models\<close> declares and the serializers rely on without stating it: the default of
  \<open>CollectionItemRevision.current\<close>, which \<open>objects.create\<close> stores since the
  serializers never pass \<open>current\<close>, and the constraints of each table. A constraint
  is given the tables without the row being written and the row; a write that it rejects
  raises \<open>IntegrityError\<close>.
\<close>

record schema =
  revision_current_default :: "bool option"
  collection_constraint :: "db \<Rightarrow> Collection \<Rightarrow> bool"
  item_constraint :: "db \<Rightarrow> CollectionItem \<Rightarrow> bool"
  chunk_constraint :: "db \<Rightarrow> CollectionItemChunk \<Rightarrow> bool"
  revision_constraint :: "db \<Rightarrow> CollectionItemRevision \<Rightarrow> bool"
  relation_constraint :: "db \<Rightarrow> RevisionChunkRelation \<Rightarrow> bool"
  member_constraint :: "db \<Rightarrow> CollectionMember \<Rightarrow> bool"

text \<open>
  Two constraints that a schema can impose: the uid of a chunk is unique, and
  \<open>(item, current)\<close> is unique over the revisions, where rows whose \<open>current\<close> is
  \<open>None\<close> never collide (the reason the serializers demote a revision to \<open>None\<close>,
  not to \<open>False\<close>; the comment in \<open>update\<close> names this constraint).
\<close>

definition chunk_uid_unique :: "db \<Rightarrow> CollectionItemChunk \<Rightarrow> bool" where
  "chunk_uid_unique d row = (filter (\<lambda>c. chunk_uid c = chunk_uid row) (chunks d) = [])"

definition unique_item_current :: "db \<Rightarrow> CollectionItemRevision \<Rightarrow> bool" where
  "unique_item_current d row =
     (rev_current row = None \<or>
      filter (\<lambda>r. rev_item r = rev_item row \<and> rev_current r = rev_current row)
        (revisions d) = [])"

text \<open>
  Modelled from the spec: the declarations of \<open>models\<close>, which are not among the
  sources. The specification has a new revision current, the uid of a chunk unique, and at
  most one current revision for an item; it names no other constraint.
\<close>

definition scenario_schema :: schema where
  "scenario_schema =
     \<lparr>revision_current_default = Some True,
      collection_constraint = (\<lambda>d row. True),
      item_constraint = (\<lambda>d row. True),
      chunk_constraint = chunk_uid_unique,
      revision_constraint = unique_item_current,
      relation_constraint = (\<lambda>d row. True),
      member_constraint = (\<lambda>d row. True)\<rparr>"

section \<open>Object-relational operations\<close>

type_synonym 'a result = "(error + 'a) \<times> state"

text \<open>
  \<open>with transaction.atomic()\<close>: an exception leaving the block rolls the tables back and
  propagates.
\<close>

definition atomic :: "(state \<Rightarrow> 'a result) \<Rightarrow> state \<Rightarrow> 'a result" where
  "atomic body s =
     (case body s of
        (Inl e, s') \<Rightarrow> (Inl e, s'\<lparr>tables := tables s\<rparr>)
      | (Inr v, s') \<Rightarrow> (Inr v, s'))"

text \<open>\<open>Storage.save\<close>: the content is stored under a name not in use, which is returned.\<close>

definition storage_save :: "byte list \<Rightarrow> state \<Rightarrow> nat \<times> state" where
  "storage_save content s = (length (storage s), s\<lparr>storage := storage s @ [content]\<rparr>)"

definition storage_open :: "state \<Rightarrow> nat \<Rightarrow> byte list option" where
  "storage_open s name = (if name < length (storage s) then Some (storage s ! name) else None)"

text \<open>Saving a new \<open>Collection\<close>: an \<open>INSERT\<close> under the next primary key.\<close>

definition Collection_insert ::
  "schema \<Rightarrow> string \<Rightarrow> int \<Rightarrow> user option \<Rightarrow> state \<Rightarrow> Collection result" where
  "Collection_insert sch uid version owner s =
     (let row = \<lparr>col_id = next_pk s, col_uid = uid, col_version = version, col_owner = owner,
                 col_mainItem = None\<rparr>;
          s1 = s\<lparr>next_pk := next_pk s + 1\<rparr>
      in if collection_constraint sch (tables s) row
         then (Inr row, s1\<lparr>tables := (tables s)\<lparr>collections := collections (tables s) @ [row]\<rparr>\<rparr>)
         else (Inl IntegrityError, s1))"

text \<open>Saving a \<open>Collection\<close> that has a primary key: an \<open>UPDATE\<close> of its row.\<close>

definition Collection_update :: "schema \<Rightarrow> Collection \<Rightarrow> state \<Rightarrow> unit result" where
  "Collection_update sch row s =
     (if collection_constraint sch
           ((tables s)\<lparr>collections := filter (\<lambda>c. col_id c \<noteq> col_id row) (collections (tables s))\<rparr>)
           row
      then (Inr (), s\<lparr>tables := (tables s)\<lparr>collections :=
              map (\<lambda>c. if col_id c = col_id row then row else c) (collections (tables s))\<rparr>\<rparr>)
      else (Inl IntegrityError, s))"

definition CollectionItem_insert ::
  "schema \<Rightarrow> string option \<Rightarrow> byte list option \<Rightarrow> int \<Rightarrow> pk option \<Rightarrow> state
     \<Rightarrow> CollectionItem result" where
  "CollectionItem_insert sch uid encryptionKey version collection s =
     (let row = \<lparr>item_id = next_pk s, item_uid = uid, item_encryptionKey = encryptionKey,
                 item_version = version, item_collection = collection\<rparr>;
          s1 = s\<lparr>next_pk := next_pk s + 1\<rparr>
      in if item_constraint sch (tables s) row
         then (Inr row, s1\<lparr>tables := (tables s)\<lparr>items := items (tables s) @ [row]\<rparr>\<rparr>)
         else (Inl IntegrityError, s1))"

text \<open>
  \<^verbatim>\<open>chunk = models.CollectionItemChunk(uid=uid, item=item)\<close>
  \<^verbatim>\<open>chunk.chunkFile.save('IGNORED', ContentFile(content))\<close>
  \<^verbatim>\<open>chunk.save()\<close>
  \<open>FieldFile.save\<close> writes the file to the storage and then saves the row (the
  \<open>INSERT\<close>); the second \<open>save\<close> writes the same row again and changes nothing.
\<close>

definition CollectionItemChunk_new ::
  "schema \<Rightarrow> string \<Rightarrow> pk \<Rightarrow> byte list \<Rightarrow> state \<Rightarrow> CollectionItemChunk result" where
  "CollectionItemChunk_new sch uid item content s =
     (let (name, s1) = storage_save content s;
          row = \<lparr>chunk_id = next_pk s1, chunk_uid = uid, chunk_item = item,
                 chunk_chunkFile = name\<rparr>;
          s2 = s1\<lparr>next_pk := next_pk s1 + 1\<rparr>
      in if chunk_constraint sch (tables s2) row
         then (Inr row, s2\<lparr>tables := (tables s2)\<lparr>chunks := chunks (tables s2) @ [row]\<rparr>\<rparr>)
         else (Inl IntegrityError, s2))"

text \<open>\<^verbatim>\<open>models.CollectionItemChunk.objects.get(uid=uid)\<close>\<close>

definition CollectionItemChunk_get :: "string \<Rightarrow> state \<Rightarrow> CollectionItemChunk result" where
  "CollectionItemChunk_get uid s =
     (case filter (\<lambda>c. chunk_uid c = uid) (chunks (tables s)) of
        [] \<Rightarrow> (Inl DoesNotExist, s)
      | [c] \<Rightarrow> (Inr c, s)
      | _ \<Rightarrow> (Inl MultipleObjectsReturned, s))"

text \<open>The revision data of a validated payload: the keys of \<open>revision_data\<close>.\<close>

datatype chunk_tuple = Tuple1 string | Tuple2 string "byte list"

fun tuple_uid :: "chunk_tuple \<Rightarrow> string" where
  "tuple_uid (Tuple1 uid) = uid"
| "tuple_uid (Tuple2 uid content) = uid"

record revision_data =
  rd_chunks_relation :: "chunk_tuple list"
  rd_meta :: "byte list"
  rd_uid :: string
  rd_deleted :: bool

text \<open>
  \<^verbatim>\<open>models.CollectionItemRevision.objects.create(**revision_data, item=item)\<close>:
  \<open>current\<close> is not among the keys, so the row takes the default of the field.
\<close>

definition CollectionItemRevision_create ::
  "schema \<Rightarrow> revision_data \<Rightarrow> pk \<Rightarrow> state \<Rightarrow> CollectionItemRevision result" where
  "CollectionItemRevision_create sch revision_data item s =
     (let row = \<lparr>rev_id = next_pk s, rev_uid = rd_uid revision_data,
                 rev_meta = rd_meta revision_data, rev_deleted = rd_deleted revision_data,
                 rev_current = revision_current_default sch, rev_item = item\<rparr>;
          s1 = s\<lparr>next_pk := next_pk s + 1\<rparr>
      in if revision_constraint sch (tables s) row
         then (Inr row, s1\<lparr>tables := (tables s)\<lparr>revisions := revisions (tables s) @ [row]\<rparr>\<rparr>)
         else (Inl IntegrityError, s1))"

text \<open>\<open>current_revision.save()\<close>: an \<open>UPDATE\<close> of the row with that primary key.\<close>

definition CollectionItemRevision_update ::
  "schema \<Rightarrow> CollectionItemRevision \<Rightarrow> state \<Rightarrow> unit result" where
  "CollectionItemRevision_update sch row s =
     (if revision_constraint sch
           ((tables s)\<lparr>revisions := filter (\<lambda>r. rev_id r \<noteq> rev_id row) (revisions (tables s))\<rparr>)
           row
      then (Inr (), s\<lparr>tables := (tables s)\<lparr>revisions :=
              map (\<lambda>r. if rev_id r = rev_id row then row else r) (revisions (tables s))\<rparr>\<rparr>)
      else (Inl IntegrityError, s))"

text \<open>\<^verbatim>\<open>models.RevisionChunkRelation.objects.create(chunk=chunk, revision=revision)\<close>\<close>

definition RevisionChunkRelation_create ::
  "schema \<Rightarrow> CollectionItemChunk \<Rightarrow> CollectionItemRevision \<Rightarrow> state
     \<Rightarrow> RevisionChunkRelation result" where
  "RevisionChunkRelation_create sch chunk revision s =
     (let row = \<lparr>rel_id = next_pk s, rel_chunk = chunk_id chunk, rel_revision = rev_id revision\<rparr>;
          s1 = s\<lparr>next_pk := next_pk s + 1\<rparr>
      in if relation_constraint sch (tables s) row
         then (Inr row, s1\<lparr>tables := (tables s)\<lparr>relations := relations (tables s) @ [row]\<rparr>\<rparr>)
         else (Inl IntegrityError, s1))"

definition CollectionMember_insert ::
  "schema \<Rightarrow> pk \<Rightarrow> user option \<Rightarrow> AccessLevels \<Rightarrow> byte list \<Rightarrow> state
     \<Rightarrow> CollectionMember result" where
  "CollectionMember_insert sch collection usr accessLevel encryptionKey s =
     (let row = \<lparr>mem_id = next_pk s, mem_collection = collection, mem_user = usr,
                 mem_accessLevel = accessLevel, mem_encryptionKey = encryptionKey\<rparr>;
          s1 = s\<lparr>next_pk := next_pk s + 1\<rparr>
      in if member_constraint sch (tables s) row
         then (Inr row, s1\<lparr>tables := (tables s)\<lparr>members := members (tables s) @ [row]\<rparr>\<rparr>)
         else (Inl IntegrityError, s1))"

text \<open>
  \<open>QuerySet.first()\<close> and \<open>QuerySet.last()\<close> of a query without an ordering: the
  rows are ordered by primary key; \<open>None\<close> when there is no row.
\<close>

definition revisions_first :: "CollectionItemRevision list \<Rightarrow> CollectionItemRevision option" where
  "revisions_first qs = (case sort_key rev_id qs of [] \<Rightarrow> None | r # _ \<Rightarrow> Some r)"

definition revisions_last :: "CollectionItemRevision list \<Rightarrow> CollectionItemRevision option" where
  "revisions_last qs = (case rev (sort_key rev_id qs) of [] \<Rightarrow> None | r # _ \<Rightarrow> Some r)"

section \<open>The serializers\<close>

subsection \<open>\<open>process_revisions_for_item\<close>\<close>

text \<open>
  The loop over \<open>chunks\<close>: \<open>len(chunk) > 1\<close> is the two-element shape, whose content
  is stored as a new chunk; the one-element shape is looked up by uid. An exception ends the
  loop where it is raised.
\<close>

fun chunks_loop ::
  "schema \<Rightarrow> pk \<Rightarrow> chunk_tuple list \<Rightarrow> CollectionItemChunk list \<Rightarrow> state
     \<Rightarrow> CollectionItemChunk list result" where
  "chunks_loop sch item [] chunks_objs s = (Inr chunks_objs, s)"
| "chunks_loop sch item (chunk # rest) chunks_objs s =
     (case (case chunk of
              Tuple2 uid content \<Rightarrow> CollectionItemChunk_new sch uid item content s
            | Tuple1 uid \<Rightarrow> CollectionItemChunk_get uid s) of
        (Inl e, s') \<Rightarrow> (Inl e, s')
      | (Inr obj, s') \<Rightarrow> chunks_loop sch item rest (chunks_objs @ [obj]) s')"

text \<open>The second loop: one \<open>RevisionChunkRelation\<close> for each chunk, in order.\<close>

fun relations_loop ::
  "schema \<Rightarrow> CollectionItemChunk list \<Rightarrow> CollectionItemRevision \<Rightarrow> state \<Rightarrow> unit result" where
  "relations_loop sch [] revision s = (Inr (), s)"
| "relations_loop sch (chunk # rest) revision s =
     (case RevisionChunkRelation_create sch chunk revision s of
        (Inl e, s') \<Rightarrow> (Inl e, s')
      | (Inr row, s') \<Rightarrow> relations_loop sch rest revision s')"

definition process_revisions_for_item ::
  "schema \<Rightarrow> pk \<Rightarrow> revision_data \<Rightarrow> state \<Rightarrow> CollectionItemRevision result" where
  "process_revisions_for_item sch item revision_data s =
     (case chunks_loop sch item (rd_chunks_relation revision_data) [] s of
        (Inl e, s1) \<Rightarrow> (Inl e, s1)
      | (Inr chunks_objs, s1) \<Rightarrow>
          (case CollectionItemRevision_create sch revision_data item s1 of
             (Inl e, s2) \<Rightarrow> (Inl e, s2)
           | (Inr revision, s2) \<Rightarrow>
               (case relations_loop sch chunks_objs revision s2 of
                  (Inl e, s3) \<Rightarrow> (Inl e, s3)
                | (Inr u, s3) \<Rightarrow> (Inr revision, s3))))"

subsection \<open>\<open>ChunksField.to_internal_value\<close>\<close>

text \<open>
  \<^verbatim>\<open>return (data[0], b64decode(data[1]))\<close>
  \<open>data\<close> is one element of the \<open>chunks\<close> array of the payload, a list of strings.
\<close>

definition getitem :: "'a list \<Rightarrow> nat \<Rightarrow> error + 'a" where
  "getitem xs i = (if i < length xs then Inr (xs ! i) else Inl IndexError)"

definition ChunksField_to_internal_value :: "string list \<Rightarrow> error + chunk_tuple" where
  "ChunksField_to_internal_value data =
     (case getitem data 0 of
        Inl e \<Rightarrow> Inl e
      | Inr uid \<Rightarrow>
          (case getitem data 1 of
             Inl e \<Rightarrow> Inl e
           | Inr text \<Rightarrow>
               (case b64decode text of
                  Inl e \<Rightarrow> Inl e
                | Inr content \<Rightarrow> Inr (Tuple2 uid content))))"

subsection \<open>\<open>CollectionItemSerializer\<close>\<close>

text \<open>
  The validated data of an item: the fields of the serializer and \<open>collection\<close>, which
  the caller of \<open>save\<close> adds.
\<close>

record item_data =
  vd_uid :: string
  vd_version :: int
  vd_encryptionKey :: "byte list"
  vd_collection :: "pk option"
  vd_content :: revision_data

definition CollectionItemSerializer_create ::
  "schema \<Rightarrow> item_data \<Rightarrow> state \<Rightarrow> CollectionItem result" where
  "CollectionItemSerializer_create sch validated_data s =
     atomic (\<lambda>s.
       case CollectionItem_insert sch (Some (vd_uid validated_data))
              (Some (vd_encryptionKey validated_data)) (vd_version validated_data)
              (vd_collection validated_data) s of
         (Inl e, s1) \<Rightarrow> (Inl e, s1)
       | (Inr instance, s1) \<Rightarrow>
           (case process_revisions_for_item sch (item_id instance)
                   (vd_content validated_data) s1 of
              (Inl e, s2) \<Rightarrow> (Inl e, s2)
            | (Inr revision, s2) \<Rightarrow> (Inr instance, s2))) s"

text \<open>
  The body of both \<open>update\<close> methods, on the primary key of the item:
  \<^verbatim>\<open>current_revision = instance.revisions.filter(current=True).select_for_update().first()\<close>
  \<^verbatim>\<open>current_revision.current = None\<close>
  \<^verbatim>\<open>current_revision.save()\<close>
  \<^verbatim>\<open>process_revisions_for_item(instance, revision_data)\<close>
  When \<open>first()\<close> returns \<open>None\<close>, the assignment raises \<open>AttributeError\<close>.
\<close>

definition supersede :: "schema \<Rightarrow> pk \<Rightarrow> revision_data \<Rightarrow> state \<Rightarrow> unit result" where
  "supersede sch item revision_data s =
     (case revisions_first
             (filter (\<lambda>r. rev_item r = item \<and> rev_current r = Some True)
                (revisions (tables s))) of
        None \<Rightarrow> (Inl AttributeError, s)
      | Some current_revision \<Rightarrow>
          (case CollectionItemRevision_update sch (current_revision\<lparr>rev_current := None\<rparr>) s of
             (Inl e, s1) \<Rightarrow> (Inl e, s1)
           | (Inr u, s1) \<Rightarrow>
               (case process_revisions_for_item sch item revision_data s1 of
                  (Inl e, s2) \<Rightarrow> (Inl e, s2)
                | (Inr revision, s2) \<Rightarrow> (Inr (), s2))))"

definition CollectionItemSerializer_update ::
  "schema \<Rightarrow> CollectionItem \<Rightarrow> item_data \<Rightarrow> state \<Rightarrow> CollectionItem result" where
  "CollectionItemSerializer_update sch instance validated_data s =
     atomic (\<lambda>s.
       case supersede sch (item_id instance) (vd_content validated_data) s of
         (Inl e, s1) \<Rightarrow> (Inl e, s1)
       | (Inr u, s1) \<Rightarrow> (Inr instance, s1)) s"

subsection \<open>\<open>CollectionSerializer\<close>\<close>

text \<open>
  The validated data of a collection: the fields of the serializer and \<open>owner\<close>, which
  the caller of \<open>save\<close> adds and \<open>validated_data.get('owner')\<close> reads (\<open>None\<close>
  when it is absent).
\<close>

record collection_data =
  cd_uid :: string
  cd_version :: int
  cd_owner :: "user option"
  cd_encryptionKey :: "byte list"
  cd_content :: revision_data

text \<open>
  The query \<^verbatim>\<open>models.CollectionItemRevision.objects.filter(item__collection=obj)\<close>:
  the revisions whose item belongs to the collection.
\<close>

definition collection_revisions :: "state \<Rightarrow> Collection \<Rightarrow> CollectionItemRevision list" where
  "collection_revisions s obj =
     filter (\<lambda>r. filter (\<lambda>i. item_id i = rev_item r \<and> item_collection i = Some (col_id obj))
                    (items (tables s)) \<noteq> [])
       (revisions (tables s))"

text \<open>
  \<^verbatim>\<open>last_revision = ... .last()\<close>
  \<^verbatim>\<open>if last_revision is None: return None\<close>
  \<^verbatim>\<open>return last_revision.uid\<close>
\<close>

definition CollectionSerializer_get_ctag :: "state \<Rightarrow> Collection \<Rightarrow> string option" where
  "CollectionSerializer_get_ctag s obj =
     (case revisions_last (collection_revisions s obj) of
        None \<Rightarrow> None
      | Some last_revision \<Rightarrow> Some (rev_uid last_revision))"

definition CollectionSerializer_create ::
  "schema \<Rightarrow> collection_data \<Rightarrow> state \<Rightarrow> Collection result" where
  "CollectionSerializer_create sch validated_data s =
     atomic (\<lambda>s.
       case Collection_insert sch (cd_uid validated_data) (cd_version validated_data)
              (cd_owner validated_data) s of
         (Inl e, s1) \<Rightarrow> (Inl e, s1)
       | (Inr saved, s1) \<Rightarrow>
           (case CollectionItem_insert sch None None (col_version saved)
                   (Some (col_id saved)) s1 of
              (Inl e, s2) \<Rightarrow> (Inl e, s2)
            | (Inr main_item, s2) \<Rightarrow>
                (let instance = saved\<lparr>col_mainItem := Some (item_id main_item)\<rparr> in
                 case process_revisions_for_item sch (item_id main_item)
                        (cd_content validated_data) s2 of
                   (Inl e, s3) \<Rightarrow> (Inl e, s3)
                 | (Inr revision, s3) \<Rightarrow>
                     (case Collection_update sch instance s3 of
                        (Inl e, s4) \<Rightarrow> (Inl e, s4)
                      | (Inr u, s4) \<Rightarrow>
                          (case CollectionMember_insert sch (col_id instance)
                                  (cd_owner validated_data) ADMIN
                                  (cd_encryptionKey validated_data) s4 of
                             (Inl e, s5) \<Rightarrow> (Inl e, s5)
                           | (Inr member, s5) \<Rightarrow> (Inr instance, s5)))))) s"

text \<open>
  \<open>main_item = instance.mainItem\<close>; without a main item, \<open>main_item.revisions\<close>
  raises \<open>AttributeError\<close>.
\<close>

definition CollectionSerializer_update ::
  "schema \<Rightarrow> Collection \<Rightarrow> collection_data \<Rightarrow> state \<Rightarrow> Collection result" where
  "CollectionSerializer_update sch instance validated_data s =
     atomic (\<lambda>s.
       case col_mainItem instance of
         None \<Rightarrow> (Inl AttributeError, s)
       | Some main_item \<Rightarrow>
           (case supersede sch main_item (cd_content validated_data) s of
              (Inl e, s1) \<Rightarrow> (Inl e, s1)
            | (Inr u, s1) \<Rightarrow> (Inr instance, s1))) s"

subsection \<open>Requests\<close>

text \<open>
  A request runs one of the four writing methods; the state after it holds what the method
  committed, or the tables as they were when it raised.
\<close>

datatype request =
    ItemCreate item_data
  | ItemUpdate CollectionItem item_data
  | CollectionCreate collection_data
  | CollectionUpdate Collection collection_data

fun handle :: "schema \<Rightarrow> request \<Rightarrow> state \<Rightarrow> state" where
  "handle sch (ItemCreate vd) s = snd (CollectionItemSerializer_create sch vd s)"
| "handle sch (ItemUpdate instance vd) s = snd (CollectionItemSerializer_update sch instance vd s)"
| "handle sch (CollectionCreate vd) s = snd (CollectionSerializer_create sch vd s)"
| "handle sch (CollectionUpdate instance vd) s = snd (CollectionSerializer_update sch instance vd s)"

fun handle_all :: "schema \<Rightarrow> request list \<Rightarrow> state \<Rightarrow> state" where
  "handle_all sch [] s = s"
| "handle_all sch (r # rs) s = handle_all sch rs (handle sch r s)"

text \<open>The revisions of an item that are current.\<close>

definition current_revisions :: "state \<Rightarrow> pk \<Rightarrow> CollectionItemRevision list" where
  "current_revisions s item =
     filter (\<lambda>r. rev_item r = item \<and> rev_current r = Some True) (revisions (tables s))"

text \<open>
  Primary keys come out of an increasing sequence: every key in use is below the next one,
  and the revisions, which are appended as they are created, carry increasing keys.
\<close>

definition pk_invariant :: "state \<Rightarrow> bool" where
  "pk_invariant s \<longleftrightarrow>
     sorted_wrt (<) (map rev_id (revisions (tables s)))
     \<and> (\<forall>r \<in> set (revisions (tables s)). rev_id r < next_pk s \<and> rev_item r < next_pk s)
     \<and> (\<forall>i \<in> set (items (tables s)). item_id i < next_pk s)"

definition single_current :: "state \<Rightarrow> bool" where
  "single_current s \<longleftrightarrow>
     (\<forall>i \<in> set (items (tables s)). length (current_revisions s (item_id i)) = 1)"

subsection \<open>The scenario of the specification\<close>

text \<open>
  An item is created with revision \<open>r1\<close>, whose chunk \<open>c1\<close> holds \<open>hello\<close>, and
  then updated with revision \<open>r2\<close>, which refers to \<open>c1\<close>; a collection is created
  with the same first revision.
\<close>

definition scenario_r1 :: revision_data where
  "scenario_r1 =
     \<lparr>rd_chunks_relation = [Tuple2 ''c1'' [104, 101, 108, 108, 111]], rd_meta = [97, 98, 99],
      rd_uid = ''r1'', rd_deleted = False\<rparr>"

definition scenario_r2 :: revision_data where
  "scenario_r2 =
     \<lparr>rd_chunks_relation = [Tuple1 ''c1''], rd_meta = [100, 101, 102],
      rd_uid = ''r2'', rd_deleted = False\<rparr>"

definition scenario_item :: "revision_data \<Rightarrow> item_data" where
  "scenario_item content =
     \<lparr>vd_uid = ''i1'', vd_version = 1, vd_encryptionKey = [1], vd_collection = None,
      vd_content = content\<rparr>"

definition scenario_collection :: "user option \<Rightarrow> collection_data" where
  "scenario_collection owner =
     \<lparr>cd_uid = ''col1'', cd_version = 1, cd_owner = owner, cd_encryptionKey = [42],
      cd_content = scenario_r1\<rparr>"

definition scenario_item_row :: CollectionItem where
  "scenario_item_row =
     \<lparr>item_id = 1, item_uid = Some ''i1'', item_encryptionKey = Some [1], item_version = 1,
      item_collection = None\<rparr>"

text \<open>The state inside \<open>create\<close> once the item is saved, and the state it commits.\<close>

definition scenario_inserted :: state where
  "scenario_inserted =
     \<lparr>tables = \<lparr>collections = [], items = [scenario_item_row], chunks = [], revisions = [],
                 relations = [], members = []\<rparr>,
      next_pk = 2, storage = []\<rparr>"

definition scenario_created :: state where
  "scenario_created =
     \<lparr>tables =
        \<lparr>collections = [],
         items = [scenario_item_row],
         chunks = [\<lparr>chunk_id = 2, chunk_uid = ''c1'', chunk_item = 1, chunk_chunkFile = 0\<rparr>],
         revisions =
           [\<lparr>rev_id = 3, rev_uid = ''r1'', rev_meta = [97, 98, 99], rev_deleted = False,
             rev_current = Some True, rev_item = 1\<rparr>],
         relations = [\<lparr>rel_id = 4, rel_chunk = 2, rel_revision = 3\<rparr>],
         members = []\<rparr>,
      next_pk = 5, storage = [[104, 101, 108, 108, 111]]\<rparr>"

text \<open>
  A revision whose chunk list creates \<open>c1\<close>, refers to it, and creates \<open>c2\<close>, and the
  state \<open>process_revisions_for_item\<close> leaves when it runs on the saved item.
\<close>

definition scenario_r3 :: revision_data where
  "scenario_r3 =
     \<lparr>rd_chunks_relation =
        [Tuple2 ''c1'' [104, 101, 108, 108, 111], Tuple1 ''c1'', Tuple2 ''c2'' [33]],
      rd_meta = [97, 98, 99], rd_uid = ''r3'', rd_deleted = False\<rparr>"

definition scenario_r3_row :: CollectionItemRevision where
  "scenario_r3_row =
     \<lparr>rev_id = 4, rev_uid = ''r3'', rev_meta = [97, 98, 99], rev_deleted = False,
      rev_current = Some True, rev_item = 1\<rparr>"

definition scenario_r3_state :: state where
  "scenario_r3_state =
     \<lparr>tables =
        \<lparr>collections = [],
         items = [scenario_item_row],
         chunks =
           [\<lparr>chunk_id = 2, chunk_uid = ''c1'', chunk_item = 1, chunk_chunkFile = 0\<rparr>,
            \<lparr>chunk_id = 3, chunk_uid = ''c2'', chunk_item = 1, chunk_chunkFile = 1\<rparr>],
         revisions = [scenario_r3_row],
         relations =
           [\<lparr>rel_id = 5, rel_chunk = 2, rel_revision = 4\<rparr>,
            \<lparr>rel_id = 6, rel_chunk = 2, rel_revision = 4\<rparr>,
            \<lparr>rel_id = 7, rel_chunk = 3, rel_revision = 4\<rparr>],
         members = []\<rparr>,
      next_pk = 8, storage = [[104, 101, 108, 108, 111], [33]]\<rparr>"

text \<open>The collection of the scenario and the state its creation commits.\<close>

definition scenario_collection_row :: Collection where
  "scenario_collection_row =
     \<lparr>col_id = 1, col_uid = ''col1'', col_version = 1, col_owner = Some 7,
      col_mainItem = Some 2\<rparr>"

definition scenario_collection_created :: state where
  "scenario_collection_created =
     \<lparr>tables =
        \<lparr>collections = [scenario_collection_row],
         items =
           [\<lparr>item_id = 2, item_uid = None, item_encryptionKey = None, item_version = 1,
             item_collection = Some 1\<rparr>],
         chunks = [\<lparr>chunk_id = 3, chunk_uid = ''c1'', chunk_item = 2, chunk_chunkFile = 0\<rparr>],
         revisions =
           [\<lparr>rev_id = 4, rev_uid = ''r1'', rev_meta = [97, 98, 99], rev_deleted = False,
             rev_current = Some True, rev_item = 2\<rparr>],
         relations = [\<lparr>rel_id = 5, rel_chunk = 3, rel_revision = 4\<rparr>],
         members =
           [\<lparr>mem_id = 6, mem_collection = 1, mem_user = Some 7, mem_accessLevel = ADMIN,
             mem_encryptionKey = [42]\<rparr>]\<rparr>,
      next_pk = 7, storage = [[104, 101, 108, 108, 111]]\<rparr>"

text \<open>
  Two collections: the first is created, then the second, then an item is added to the
  first. The third row is a collection none of whose items has a revision.
\<close>

definition scenario_r9 :: revision_data where
  "scenario_r9 =
     \<lparr>rd_chunks_relation = [Tuple2 ''c9'' [57]], rd_meta = [103], rd_uid = ''r9'',
      rd_deleted = False\<rparr>"

definition scenario_requests :: "request list" where
  "scenario_requests =
     [CollectionCreate (scenario_collection (Some 7)),
      CollectionCreate
        ((scenario_collection (Some 8))\<lparr>cd_uid := ''col2'', cd_content := scenario_r9\<rparr>),
      ItemCreate ((scenario_item scenario_r2)\<lparr>vd_collection := Some 1\<rparr>)]"

definition scenario_collection2_row :: Collection where
  "scenario_collection2_row =
     \<lparr>col_id = 7, col_uid = ''col2'', col_version = 1, col_owner = Some 8,
      col_mainItem = Some 8\<rparr>"

definition scenario_collection3_row :: Collection where
  "scenario_collection3_row =
     \<lparr>col_id = 99, col_uid = ''col3'', col_version = 1, col_owner = Some 8,
      col_mainItem = None\<rparr>"

section \<open>The codec round trip\<close>

text \<open>
  First the arithmetic of one group: the four sextets of three bytes are below 64, and the
  decoder's shifts put the three bytes together again.
\<close>

lemma m3: "(3::byte) = mask 2" and m15: "(15::byte) = mask 4" and m63: "(63::byte) = mask 6"
  by (simp_all add: mask_eq_exp_minus_1)

lemma less8: "n < (8::nat) \<Longrightarrow> n = 0 \<or> n = 1 \<or> n = 2 \<or> n = 3 \<or> n = 4 \<or> n = 5 \<or> n = 6 \<or> n = 7"
  by arith

lemma byte_eqI:
  fixes a b :: byte
  assumes "bit a 0 = bit b 0" "bit a 1 = bit b 1" "bit a 2 = bit b 2" "bit a 3 = bit b 3"
    "bit a 4 = bit b 4" "bit a 5 = bit b 5" "bit a 6 = bit b 6" "bit a 7 = bit b 7"
  shows "a = b"
proof (rule bit_word_eqI)
  fix n assume "n < LENGTH(8)"
  then have "n < 8" by simp
  from less8[OF this] assms show "bit a n = bit b n" by auto
qed

lemma grp1: "push_bit 2 (drop_bit 2 a) OR drop_bit 4 (push_bit 4 (a AND 3) OR drop_bit 4 b) = (a::byte)"
  unfolding m3 m15 m63
  by (rule byte_eqI) (simp_all add: bit_simps)

lemma grp1': "push_bit 2 (drop_bit 2 a) OR drop_bit 4 (push_bit 4 (a AND 3)) = (a::byte)"
  unfolding m3 m15 m63
  by (rule byte_eqI) (simp_all add: bit_simps)

lemma grp2: "push_bit 4 ((push_bit 4 (a AND 3) OR drop_bit 4 b) AND 15) OR drop_bit 2 (push_bit 2 (b AND 15) OR drop_bit 6 c) = (b::byte)"
  unfolding m3 m15 m63
  by (rule byte_eqI) (simp_all add: bit_simps)

lemma grp2': "push_bit 4 ((push_bit 4 (a AND 3) OR drop_bit 4 b) AND 15) OR drop_bit 2 (push_bit 2 (b AND 15)) = (b::byte)"
  unfolding m3 m15 m63
  by (rule byte_eqI) (simp_all add: bit_simps)

lemma grp3: "push_bit 6 ((push_bit 2 (b AND 15) OR drop_bit 6 c) AND 3) OR (c AND 63) = (c::byte)"
  unfolding m3 m15 m63
  by (rule byte_eqI) (simp_all add: bit_simps)

lemma nbit: "8 \<le> n \<Longrightarrow> \<not> bit (a::byte) n"
  by (auto dest: bit_imp_le_length)

lemma lt64I: "\<not> bit x 6 \<Longrightarrow> \<not> bit x 7 \<Longrightarrow> (x::byte) < 64"
proof -
  assume a: "\<not> bit x 6" "\<not> bit x 7"
  have "x = take_bit 6 x"
    by (rule byte_eqI) (simp_all add: bit_simps a)
  then have "x = x AND mask 6" by (simp add: take_bit_eq_mask)
  then have "x \<le> mask 6" by (metis word_and_le1)
  then show ?thesis by (simp add: mask_eq_exp_minus_1 word_le_nat_alt word_less_nat_alt)
qed

lemma lt1: "drop_bit 2 (a::byte) < 64"
  and lt2: "push_bit 4 (a AND 3) OR drop_bit 4 (b::byte) < 64"
  and lt3: "push_bit 2 (b AND 15) OR drop_bit 6 (c::byte) < 64"
  and lt4: "c AND 63 < 64"
  and lt5: "push_bit 4 (a AND 3) < 64"
  and lt6: "push_bit 2 (b AND 15) < 64"
  unfolding m3 m15 m63
  by (rule lt64I; simp add: bit_simps nbit)+

text \<open>
  The decoding table inverts the alphabet on every sextet, also behind the two URL-safe
  translations; no character of the alphabet is the pad, and all are ASCII.
\<close>

lemma sextet_inv: "\<forall>n \<in> set [0..<64]. table_a2b_base64 (urlsafe_decode_translation (urlsafe_encode_translation (b2a (of_nat n)))) = Some (of_nat n)"
  by code_simp

lemma sextet_noteq: "\<forall>n \<in> set [0..<64]. urlsafe_encode_translation (b2a (of_nat n)) \<noteq> CHR ''='' \<and> urlsafe_decode_translation (urlsafe_encode_translation (b2a (of_nat n))) \<noteq> CHR ''='' \<and> (of_char (urlsafe_encode_translation (b2a (of_nat n))) :: nat) < 128"
  by code_simp

lemma enc_ch_props:
  assumes "s < 64"
  shows "table_a2b_base64 (urlsafe_decode_translation (urlsafe_encode_translation (b2a s))) = Some s"
    and "urlsafe_encode_translation (b2a s) \<noteq> CHR ''=''"
    and "urlsafe_decode_translation (urlsafe_encode_translation (b2a s)) \<noteq> CHR ''=''"
    and "(of_char (urlsafe_encode_translation (b2a s)) :: nat) < 128"
proof -
  from assms have u: "unat s \<in> set [0..<64]" by (simp add: word_less_nat_alt)
  have e: "of_nat (unat s) = s" by simp
  from sextet_inv u e
  show "table_a2b_base64 (urlsafe_decode_translation (urlsafe_encode_translation (b2a s))) = Some s"
    by metis
  from sextet_noteq u e show "urlsafe_encode_translation (b2a s) \<noteq> CHR ''=''"
    and "urlsafe_decode_translation (urlsafe_encode_translation (b2a s)) \<noteq> CHR ''=''"
    and "(of_char (urlsafe_encode_translation (b2a s)) :: nat) < 128"
    by metis+
qed

lemma pad_tr:
  "urlsafe_encode_translation (CHR ''='') = CHR ''=''"
  "urlsafe_decode_translation (CHR ''='') = CHR ''=''"
  by (simp_all add: urlsafe_decode_translation_def urlsafe_encode_translation_def)

text \<open>The decoder on one character of the alphabet, on a quad, and on the two padded ends.\<close>

lemma a2b_loop_sextet:
  assumes "s < 64"
  shows "a2b_loop q lc p out (urlsafe_decode_translation (urlsafe_encode_translation (b2a s)) # rest) =
     (if q = 0 then a2b_loop 1 s 0 out rest
      else if q = 1 then a2b_loop 2 (s AND 15) 0 (out @ [push_bit 2 lc OR drop_bit 4 s]) rest
      else if q = 2 then a2b_loop 3 (s AND 3) 0 (out @ [push_bit 4 lc OR drop_bit 2 s]) rest
      else a2b_loop 0 0 0 (out @ [push_bit 6 lc OR s]) rest)"
  using enc_ch_props[OF assms] by simp

lemma a2b_loop_quad:
  assumes "s0 < 64" "s1 < 64" "s2 < 64" "s3 < 64"
  shows "a2b_loop 0 lc p out
           (map urlsafe_decode_translation (map urlsafe_encode_translation
              ([b2a s0, b2a s1, b2a s2, b2a s3] @ rest)))
         = a2b_loop 0 0 0
             (out @ [push_bit 2 s0 OR drop_bit 4 s1, push_bit 4 (s1 AND 15) OR drop_bit 2 s2,
                     push_bit 6 (s2 AND 3) OR s3])
             (map urlsafe_decode_translation (map urlsafe_encode_translation rest))"
  by (simp add: a2b_loop_sextet assms del: a2b_loop.simps)

lemma a2b_loop_pad1:
  assumes "s0 < 64" "s1 < 64" "s2 < 64"
  shows "a2b_loop 0 lc p out
           (map urlsafe_decode_translation (map urlsafe_encode_translation
              [b2a s0, b2a s1, b2a s2, CHR ''='']))
         = Inr (out @ [push_bit 2 s0 OR drop_bit 4 s1, push_bit 4 (s1 AND 15) OR drop_bit 2 s2])"
proof -
  have "a2b_loop 0 lc p out
           (map urlsafe_decode_translation (map urlsafe_encode_translation
              [b2a s0, b2a s1, b2a s2, CHR ''='']))
        = a2b_loop 3 (s2 AND 3) 0
            (out @ [push_bit 2 s0 OR drop_bit 4 s1, push_bit 4 (s1 AND 15) OR drop_bit 2 s2])
            [CHR ''='']"
    by (simp add: a2b_loop_sextet assms pad_tr del: a2b_loop.simps)
  then show ?thesis by simp
qed

lemma a2b_loop_pad2:
  assumes "s0 < 64" "s1 < 64"
  shows "a2b_loop 0 lc p out
           (map urlsafe_decode_translation (map urlsafe_encode_translation
              [b2a s0, b2a s1, CHR ''='', CHR ''='']))
         = Inr (out @ [push_bit 2 s0 OR drop_bit 4 s1])"
proof -
  have "a2b_loop 0 lc p out
           (map urlsafe_decode_translation (map urlsafe_encode_translation
              [b2a s0, b2a s1, CHR ''='', CHR ''='']))
        = a2b_loop 2 (s1 AND 15) 0 (out @ [push_bit 2 s0 OR drop_bit 4 s1])
            [CHR ''='', CHR ''='']"
    by (simp add: a2b_loop_sextet assms pad_tr del: a2b_loop.simps)
  then show ?thesis by simp
qed

lemma a2b_loop_encoded:
  "a2b_loop 0 lc p out
     (map urlsafe_decode_translation (map urlsafe_encode_translation (b2a_base64 b)))
     = Inr (out @ b)"
proof (induction b arbitrary: lc p out rule: b2a_base64.induct)
  case 1
  show ?case by simp
next
  case (2 a)
  show ?case
    unfolding b2a_base64.simps a2b_loop_pad2[OF lt1 lt5] grp1' ..
next
  case (3 a b)
  show ?case
    unfolding b2a_base64.simps a2b_loop_pad1[OF lt1 lt2 lt6] grp1 grp2' ..
next
  case (4 a b c rest)
  show ?case
    unfolding b2a_base64.simps a2b_loop_quad[OF lt1 lt2 lt3 lt4] grp1 grp2 grp3 "4.IH"
    by simp
qed

lemma encoded_ascii:
  "\<forall>c \<in> set (urlsafe_b64encode b). (of_char c :: nat) < 128"
  unfolding urlsafe_b64encode_def
proof (induction b rule: b2a_base64.induct)
  case 1
  show ?case by simp
next
  case (2 a)
  show ?case unfolding b2a_base64.simps
    by (simp add: enc_ch_props(4)[OF lt1] enc_ch_props(4)[OF lt5] pad_tr
             del: push_bit_and push_bit_or)
next
  case (3 a b)
  show ?case unfolding b2a_base64.simps
    by (simp add: enc_ch_props(4)[OF lt1] enc_ch_props(4)[OF lt2] enc_ch_props(4)[OF lt6] pad_tr
             del: push_bit_and push_bit_or)
next
  case (4 a b c rest)
  then show ?case unfolding b2a_base64.simps
    by (simp add: enc_ch_props(4)[OF lt1] enc_ch_props(4)[OF lt2] enc_ch_props(4)[OF lt3]
                  enc_ch_props(4)[OF lt4] del: push_bit_and push_bit_or)
qed

lemma urlsafe_roundtrip: "urlsafe_b64decode (urlsafe_b64encode b) = Inr b"
proof -
  have "filter (\<lambda>c. (128::nat) \<le> of_char c) (urlsafe_b64encode b) = []"
    using encoded_ascii[of b] by (auto simp: filter_empty_conv not_le)
  then show ?thesis
    using a2b_loop_encoded[of 0 0 "[]" b]
    by (simp add: urlsafe_b64decode_def a2b_base64_def urlsafe_b64encode_def)
qed

text \<open>
  Stripping: the encoded text is a body without pad characters followed by as many pads as
  \<open>b64decode\<close> appends again.
\<close>

lemma strip_pad:
  assumes "c \<notin> set xs"
  shows "strip c (xs @ replicate k c) = xs"
proof -
  have d: "dropWhile (\<lambda>x. x = c) ys = ys" if "c \<notin> set ys" for ys
    using that by (cases ys) auto
  have r: "dropWhile (\<lambda>x. x = c) (replicate k c @ ys) = dropWhile (\<lambda>x. x = c) ys" for ys
    by (induction k) auto
  show ?thesis
  proof (cases xs)
    case Nil
    have "dropWhile (\<lambda>x. x = c) (replicate k c) = []" by simp
    with Nil show ?thesis by (simp add: strip_def)
  next
    case (Cons y ys)
    with assms have 1: "dropWhile (\<lambda>x. x = c) (xs @ replicate k c) = xs @ replicate k c"
      by auto
    have 2: "dropWhile (\<lambda>x. x = c) (replicate k c @ rev xs) = rev xs"
      using assms by (simp only: r) (rule d, simp)
    show ?thesis by (simp add: strip_def 1 2)
  qed
qed

lemma replicate_2: "replicate 2 x = [x, x]"
  by (simp add: numeral_2_eq_2)

lemma encoded_shape:
  "\<exists>body k. urlsafe_b64encode b = body @ replicate k (CHR ''='') \<and> CHR ''='' \<notin> set body
     \<and> k = (4 - length body mod 4) mod 4"
  unfolding urlsafe_b64encode_def
proof (induction b rule: b2a_base64.induct)
  case 1
  show ?case by simp
next
  case (2 a)
  show ?case unfolding b2a_base64.simps
    by (rule exI[of _ "map urlsafe_encode_translation [b2a (drop_bit 2 a), b2a (push_bit 4 (a AND 3))]"],
        rule exI[of _ 2])
       (simp add: enc_ch_props(2)[OF lt1, THEN not_sym] enc_ch_props(2)[OF lt5, THEN not_sym]
                  pad_tr replicate_2 del: push_bit_and push_bit_or)
next
  case (3 a b)
  show ?case unfolding b2a_base64.simps
    by (rule exI[of _ "map urlsafe_encode_translation [b2a (drop_bit 2 a),
           b2a (push_bit 4 (a AND 3) OR drop_bit 4 b), b2a (push_bit 2 (b AND 15))]"],
        rule exI[of _ 1])
       (simp add: enc_ch_props(2)[OF lt1, THEN not_sym] enc_ch_props(2)[OF lt2, THEN not_sym] enc_ch_props(2)[OF lt6, THEN not_sym] pad_tr
             del: push_bit_and push_bit_or)
next
  case (4 a b c rest)
  then obtain body k where
    h: "map urlsafe_encode_translation (b2a_base64 rest) = body @ replicate k (CHR ''='')"
       "CHR ''='' \<notin> set body" "k = (4 - length body mod 4) mod 4"
    by blast
  show ?case unfolding b2a_base64.simps
    by (rule exI[of _ "map urlsafe_encode_translation [b2a (drop_bit 2 a),
           b2a (push_bit 4 (a AND 3) OR drop_bit 4 b),
           b2a (push_bit 2 (b AND 15) OR drop_bit 6 c), b2a (c AND 63)] @ body"],
        rule exI[of _ k])
       (simp add: h enc_ch_props(2)[OF lt1, THEN not_sym] enc_ch_props(2)[OF lt2, THEN not_sym] enc_ch_props(2)[OF lt3, THEN not_sym]
                  enc_ch_props(2)[OF lt4, THEN not_sym] del: push_bit_and push_bit_or)
qed

lemma b64decode_b64encode:
  "b64decode (b64encode b) = Inr b" and b64encode_no_padding: "CHR ''='' \<notin> set (b64encode b)"
proof -
  obtain body k where
    h: "urlsafe_b64encode b = body @ replicate k (CHR ''='')" "CHR ''='' \<notin> set body"
       "k = (4 - length body mod 4) mod 4"
    using encoded_shape by blast
  have e: "b64encode b = body" by (simp add: b64encode_def h(1) strip_pad[OF h(2)])
  have "b64decode (b64encode b) = urlsafe_b64decode (urlsafe_b64encode b)"
    by (simp add: b64decode_def e h(1) h(3)[symmetric])
  then show "b64decode (b64encode b) = Inr b" by (simp add: urlsafe_roundtrip)
  show "CHR ''='' \<notin> set (b64encode b)" by (simp add: e h(2))
qed

section \<open>Frame lemmas\<close>

text \<open>What a transaction block returns, and what each write changes and leaves alone.\<close>

lemma atomic_Inl_tables: "atomic body s = (Inl e, s') \<Longrightarrow> tables s' = tables s"
  by (auto simp: atomic_def split: prod.splits sum.splits)

lemma atomic_Inr: "atomic body s = (Inr v, s') \<Longrightarrow> body s = (Inr v, s')"
  by (auto simp: atomic_def split: prod.splits sum.splits)

lemma atomic_cases:
  assumes "atomic body s = (res, s')"
  obtains (rollback) e s1 where "body s = (Inl e, s1)" "res = Inl e" "s' = s1\<lparr>tables := tables s\<rparr>"
        | (commit) v where "body s = (Inr v, s')" "res = Inr v"
  using assms by (auto simp: atomic_def split: prod.splits sum.splits)

lemma CollectionItemChunk_new_frame:
  assumes "CollectionItemChunk_new sch uid item content s = (res, s')"
  shows "collections (tables s') = collections (tables s)"
    and "items (tables s') = items (tables s)"
    and "revisions (tables s') = revisions (tables s)"
    and "relations (tables s') = relations (tables s)"
    and "members (tables s') = members (tables s)"
    and "next_pk s' = next_pk s + 1"
    and "storage s' = storage s @ [content]"
  using assms
  by (auto simp: CollectionItemChunk_new_def storage_save_def Let_def split: if_splits)

lemma CollectionItemChunk_new_Inr:
  assumes "CollectionItemChunk_new sch uid item content s = (Inr obj, s')"
  shows "chunks (tables s') = chunks (tables s) @ [obj]" and "chunk_uid obj = uid"
    and "chunk_id obj = next_pk s" and "chunk_chunkFile obj = length (storage s)"
    and "chunk_constraint sch (tables s) obj"
  using assms
  by (auto simp: CollectionItemChunk_new_def storage_save_def Let_def split: if_splits)

lemma CollectionItemChunk_new_Inl:
  assumes "CollectionItemChunk_new sch uid item content s = (Inl e, s')"
  shows "tables s' = tables s" and "e = IntegrityError"
  using assms
  by (auto simp: CollectionItemChunk_new_def storage_save_def Let_def split: if_splits)

lemma CollectionItemChunk_get_state:
  "CollectionItemChunk_get uid s = (res, s') \<Longrightarrow> s' = s"
  by (auto simp: CollectionItemChunk_get_def split: list.splits)

lemma CollectionItemChunk_get_Inr:
  "CollectionItemChunk_get uid s = (Inr obj, s') \<Longrightarrow>
     obj \<in> set (chunks (tables s)) \<and> chunk_uid obj = uid"
proof -
  assume a: "CollectionItemChunk_get uid s = (Inr obj, s')"
  then have "filter (\<lambda>c. chunk_uid c = uid) (chunks (tables s)) = [obj]"
    by (auto simp: CollectionItemChunk_get_def split: list.splits)
  then have "obj \<in> set (filter (\<lambda>c. chunk_uid c = uid) (chunks (tables s)))" by simp
  then show ?thesis by simp
qed

lemma chunks_loop_frame:
  assumes "chunks_loop sch item cs objs s = (res, s')"
  shows "collections (tables s') = collections (tables s)
       \<and> items (tables s') = items (tables s)
       \<and> revisions (tables s') = revisions (tables s)
       \<and> relations (tables s') = relations (tables s)
       \<and> members (tables s') = members (tables s)
       \<and> next_pk s \<le> next_pk s'
       \<and> (\<exists>ys. chunks (tables s') = chunks (tables s) @ ys)
       \<and> (\<exists>zs. storage s' = storage s @ zs)"
  using assms
proof (induction cs arbitrary: objs s)
  case Nil
  then show ?case by simp
next
  case (Cons c cs)
  show ?case
  proof (cases c)
    case (Tuple1 uid)
    show ?thesis
    proof (cases "CollectionItemChunk_get uid s")
      case (Pair r s1)
      then have s1: "s1 = s" by (rule CollectionItemChunk_get_state)
      show ?thesis
      proof (cases r)
        case (Inl e)
        with Cons.prems Tuple1 Pair s1 show ?thesis by simp
      next
        case (Inr obj)
        with Cons.prems Tuple1 Pair s1
        have "chunks_loop sch item cs (objs @ [obj]) s = (res, s')" by simp
        from Cons.IH[OF this] show ?thesis .
      qed
    qed
  next
    case (Tuple2 uid content)
    show ?thesis
    proof (cases "CollectionItemChunk_new sch uid item content s")
      case (Pair r s1)
      note fr = CollectionItemChunk_new_frame[OF Pair]
      show ?thesis
      proof (cases r)
        case (Inl e)
        with Cons.prems Tuple2 Pair have "s' = s1" by simp
        moreover from Pair Inl have "tables s1 = tables s"
          by (simp add: CollectionItemChunk_new_Inl)
        ultimately show ?thesis using fr by simp
      next
        case (Inr obj)
        with Cons.prems Tuple2 Pair
        have "chunks_loop sch item cs (objs @ [obj]) s1 = (res, s')" by simp
        from Cons.IH[OF this] fr CollectionItemChunk_new_Inr(1)[OF Pair[unfolded Inr]]
        show ?thesis by auto
      qed
    qed
  qed
qed

lemma chunks_loop_Inr:
  assumes "chunks_loop sch item cs objs s = (Inr objs', s')"
  shows "\<exists>new. objs' = objs @ new \<and> map chunk_uid new = map tuple_uid cs
           \<and> set new \<subseteq> set (chunks (tables s'))"
  using assms
proof (induction cs arbitrary: objs s)
  case Nil
  then show ?case by simp
next
  case (Cons c cs)
  obtain r s1 where step:
    "(case c of Tuple2 uid content \<Rightarrow> CollectionItemChunk_new sch uid item content s
              | Tuple1 uid \<Rightarrow> CollectionItemChunk_get uid s) = (r, s1)"
    by (cases "(case c of Tuple2 uid content \<Rightarrow> CollectionItemChunk_new sch uid item content s
              | Tuple1 uid \<Rightarrow> CollectionItemChunk_get uid s)") blast
  with Cons.prems obtain obj where r: "r = Inr obj"
    and rest: "chunks_loop sch item cs (objs @ [obj]) s1 = (Inr objs', s')"
    by (cases r) auto
  have obj: "chunk_uid obj = tuple_uid c \<and> obj \<in> set (chunks (tables s1))"
  proof (cases c)
    case (Tuple1 uid)
    with step r have g: "CollectionItemChunk_get uid s = (Inr obj, s1)" by simp
    from CollectionItemChunk_get_Inr[OF g] CollectionItemChunk_get_state[OF g] Tuple1
    show ?thesis by simp
  next
    case (Tuple2 uid content)
    with step r have g: "CollectionItemChunk_new sch uid item content s = (Inr obj, s1)" by simp
    from CollectionItemChunk_new_Inr[OF g] Tuple2 show ?thesis by simp
  qed
  from chunks_loop_frame[OF rest] obtain ys where
    ys: "chunks (tables s') = chunks (tables s1) @ ys" by blast
  from Cons.IH[OF rest] obtain new where
    new: "objs' = (objs @ [obj]) @ new" "map chunk_uid new = map tuple_uid cs"
         "set new \<subseteq> set (chunks (tables s'))" by blast
  show ?case
    by (rule exI[of _ "obj # new"]) (use new obj ys in auto)
qed


lemma CollectionItemRevision_create_frame:
  assumes "CollectionItemRevision_create sch rd item s = (res, s')"
  shows "collections (tables s') = collections (tables s)"
    and "items (tables s') = items (tables s)"
    and "chunks (tables s') = chunks (tables s)"
    and "relations (tables s') = relations (tables s)"
    and "members (tables s') = members (tables s)"
    and "next_pk s' = next_pk s + 1"
    and "storage s' = storage s"
  using assms
  by (auto simp: CollectionItemRevision_create_def Let_def split: if_splits)

lemma CollectionItemRevision_create_Inr:
  assumes "CollectionItemRevision_create sch rd item s = (Inr revision, s')"
  shows "revisions (tables s') = revisions (tables s) @ [revision]"
    and "rev_id revision = next_pk s" and "rev_item revision = item"
    and "rev_current revision = revision_current_default sch"
    and "rev_uid revision = rd_uid rd"
  using assms
  by (auto simp: CollectionItemRevision_create_def Let_def split: if_splits)

lemma CollectionItemRevision_create_Inl:
  assumes "CollectionItemRevision_create sch rd item s = (Inl e, s')"
  shows "tables s' = tables s"
  using assms
  by (auto simp: CollectionItemRevision_create_def Let_def split: if_splits)

lemma RevisionChunkRelation_create_frame:
  assumes "RevisionChunkRelation_create sch chunk revision s = (res, s')"
  shows "collections (tables s') = collections (tables s)"
    and "items (tables s') = items (tables s)"
    and "chunks (tables s') = chunks (tables s)"
    and "revisions (tables s') = revisions (tables s)"
    and "members (tables s') = members (tables s)"
    and "next_pk s' = next_pk s + 1"
    and "storage s' = storage s"
  using assms
  by (auto simp: RevisionChunkRelation_create_def Let_def split: if_splits)

lemma RevisionChunkRelation_create_Inr:
  assumes "RevisionChunkRelation_create sch chunk revision s = (Inr row, s')"
  shows "relations (tables s') = relations (tables s) @ [row]"
    and "rel_id row = next_pk s" and "rel_chunk row = chunk_id chunk"
    and "rel_revision row = rev_id revision"
  using assms
  by (auto simp: RevisionChunkRelation_create_def Let_def split: if_splits)

lemma relations_loop_frame:
  assumes "relations_loop sch objs revision s = (res, s')"
  shows "collections (tables s') = collections (tables s)
       \<and> items (tables s') = items (tables s)
       \<and> chunks (tables s') = chunks (tables s)
       \<and> revisions (tables s') = revisions (tables s)
       \<and> members (tables s') = members (tables s)
       \<and> next_pk s \<le> next_pk s'
       \<and> storage s' = storage s"
  using assms
proof (induction objs arbitrary: s)
  case Nil
  then show ?case by simp
next
  case (Cons obj objs)
  obtain r s1 where step: "RevisionChunkRelation_create sch obj revision s = (r, s1)"
    by (cases "RevisionChunkRelation_create sch obj revision s") blast
  note fr = RevisionChunkRelation_create_frame[OF step]
  show ?case
  proof (cases r)
    case (Inl e)
    with Cons.prems step have "s' = s1" by simp
    with fr show ?thesis by simp
  next
    case (Inr row)
    with Cons.prems step have "relations_loop sch objs revision s1 = (res, s')" by simp
    from Cons.IH[OF this] fr show ?thesis by simp
  qed
qed

lemma relations_loop_Inr:
  assumes "relations_loop sch objs revision s = (Inr u, s')"
  shows "\<exists>new. relations (tables s') = relations (tables s) @ new
           \<and> map rel_chunk new = map chunk_id objs
           \<and> map rel_revision new = replicate (length objs) (rev_id revision)
           \<and> sorted_wrt (<) (map rel_id new)
           \<and> (\<forall>n \<in> set new. next_pk s \<le> rel_id n)"
  using assms
proof (induction objs arbitrary: s)
  case Nil
  then show ?case by simp
next
  case (Cons obj objs)
  obtain r s1 where step: "RevisionChunkRelation_create sch obj revision s = (r, s1)"
    by (cases "RevisionChunkRelation_create sch obj revision s") blast
  with Cons.prems obtain row where r: "r = Inr row"
    and rest: "relations_loop sch objs revision s1 = (Inr u, s')"
    by (cases r) auto
  note row = RevisionChunkRelation_create_Inr[OF step[unfolded r]]
  note fr = RevisionChunkRelation_create_frame[OF step]
  from Cons.IH[OF rest] obtain new where
    new: "relations (tables s') = relations (tables s1) @ new"
         "map rel_chunk new = map chunk_id objs"
         "map rel_revision new = replicate (length objs) (rev_id revision)"
         "sorted_wrt (<) (map rel_id new)"
         "\<forall>n \<in> set new. next_pk s1 \<le> rel_id n"
    by blast
  show ?case
    by (rule exI[of _ "row # new"]) (use new row fr in auto)
qed

lemma process_revisions_for_item_frame:
  assumes "process_revisions_for_item sch item rd s = (res, s')"
  shows "collections (tables s') = collections (tables s)
       \<and> items (tables s') = items (tables s)
       \<and> members (tables s') = members (tables s)
       \<and> next_pk s \<le> next_pk s'
       \<and> (\<exists>ys. chunks (tables s') = chunks (tables s) @ ys)
       \<and> (\<exists>zs. storage s' = storage s @ zs)"
proof -
  obtain r1 s1 where l1: "chunks_loop sch item (rd_chunks_relation rd) [] s = (r1, s1)"
    by (cases "chunks_loop sch item (rd_chunks_relation rd) [] s") blast
  note f1 = chunks_loop_frame[OF l1]
  show ?thesis
  proof (cases r1)
    case (Inl e)
    with assms l1 have "s' = s1" by (simp add: process_revisions_for_item_def)
    with f1 show ?thesis by simp
  next
    case (Inr objs)
    obtain r2 s2 where l2: "CollectionItemRevision_create sch rd item s1 = (r2, s2)"
      by (cases "CollectionItemRevision_create sch rd item s1") blast
    note f2 = CollectionItemRevision_create_frame[OF l2]
    show ?thesis
    proof (cases r2)
      case (Inl e)
      with assms l1 l2 Inr have "s' = s2" by (simp add: process_revisions_for_item_def)
      with f1 f2 show ?thesis by simp
    next
      case r2: (Inr revision)
      obtain r3 s3 where l3: "relations_loop sch objs revision s2 = (r3, s3)"
        by (cases "relations_loop sch objs revision s2") blast
      note f3 = relations_loop_frame[OF l3]
      from assms l1 l2 l3 Inr r2 have "s' = s3"
        by (auto simp: process_revisions_for_item_def split: sum.splits)
      with f1 f2 f3 show ?thesis by simp
    qed
  qed
qed

lemma process_revisions_for_item_Inr:
  assumes "process_revisions_for_item sch item rd s = (Inr revision, s')"
  obtains objs s1 s2 where
    "chunks_loop sch item (rd_chunks_relation rd) [] s = (Inr objs, s1)"
    "CollectionItemRevision_create sch rd item s1 = (Inr revision, s2)"
    "relations_loop sch objs revision s2 = (Inr (), s')"
  using assms
  by (auto simp: process_revisions_for_item_def split: prod.splits sum.splits)

lemma process_revisions_for_item_revisions:
  assumes "process_revisions_for_item sch item rd s = (Inr revision, s')"
  shows "revisions (tables s') = revisions (tables s) @ [revision]"
    and "next_pk s \<le> rev_id revision" and "rev_id revision < next_pk s'"
    and "rev_item revision = item"
    and "rev_current revision = revision_current_default sch"
    and "rev_uid revision = rd_uid rd"
proof -
  from assms obtain objs s1 s2 where
    l1: "chunks_loop sch item (rd_chunks_relation rd) [] s = (Inr objs, s1)" and
    l2: "CollectionItemRevision_create sch rd item s1 = (Inr revision, s2)" and
    l3: "relations_loop sch objs revision s2 = (Inr (), s')"
    by (rule process_revisions_for_item_Inr)
  note f1 = chunks_loop_frame[OF l1]
  note f2 = CollectionItemRevision_create_frame[OF l2]
  note r2 = CollectionItemRevision_create_Inr[OF l2]
  note f3 = relations_loop_frame[OF l3]
  show "revisions (tables s') = revisions (tables s) @ [revision]"
    using f1 r2 f3 by simp
  show "next_pk s \<le> rev_id revision" using f1 r2 by simp
  show "rev_id revision < next_pk s'" using f2 r2 f3 by simp
  show "rev_item revision = item" by (rule r2)
  show "rev_current revision = revision_current_default sch" by (rule r2)
  show "rev_uid revision = rd_uid rd" by (rule r2)
qed

lemma Collection_insert_frame:
  assumes "Collection_insert sch uid version owner s = (res, s')"
  shows "items (tables s') = items (tables s)"
    and "chunks (tables s') = chunks (tables s)"
    and "revisions (tables s') = revisions (tables s)"
    and "relations (tables s') = relations (tables s)"
    and "members (tables s') = members (tables s)"
    and "next_pk s' = next_pk s + 1"
    and "storage s' = storage s"
  using assms
  by (auto simp: Collection_insert_def Let_def split: if_splits)

lemma Collection_insert_Inr:
  assumes "Collection_insert sch uid version owner s = (Inr row, s')"
  shows "collections (tables s') = collections (tables s) @ [row]"
    and "col_id row = next_pk s" and "col_uid row = uid" and "col_version row = version"
    and "col_owner row = owner" and "col_mainItem row = None"
  using assms
  by (auto simp: Collection_insert_def Let_def split: if_splits)

lemma Collection_update_frame:
  assumes "Collection_update sch row s = (res, s')"
  shows "items (tables s') = items (tables s)"
    and "chunks (tables s') = chunks (tables s)"
    and "revisions (tables s') = revisions (tables s)"
    and "relations (tables s') = relations (tables s)"
    and "members (tables s') = members (tables s)"
    and "next_pk s' = next_pk s"
    and "storage s' = storage s"
  using assms
  by (auto simp: Collection_update_def split: if_splits)

lemma Collection_update_Inr:
  assumes "Collection_update sch row s = (Inr u, s')"
  shows "collections (tables s') =
           map (\<lambda>c. if col_id c = col_id row then row else c) (collections (tables s))"
  using assms
  by (auto simp: Collection_update_def split: if_splits)

lemma CollectionItem_insert_frame:
  assumes "CollectionItem_insert sch uid key version collection s = (res, s')"
  shows "collections (tables s') = collections (tables s)"
    and "chunks (tables s') = chunks (tables s)"
    and "revisions (tables s') = revisions (tables s)"
    and "relations (tables s') = relations (tables s)"
    and "members (tables s') = members (tables s)"
    and "next_pk s' = next_pk s + 1"
    and "storage s' = storage s"
  using assms
  by (auto simp: CollectionItem_insert_def Let_def split: if_splits)

lemma CollectionItem_insert_Inr:
  assumes "CollectionItem_insert sch uid key version collection s = (Inr row, s')"
  shows "items (tables s') = items (tables s) @ [row]"
    and "item_id row = next_pk s" and "item_uid row = uid" and "item_encryptionKey row = key"
    and "item_version row = version" and "item_collection row = collection"
  using assms
  by (auto simp: CollectionItem_insert_def Let_def split: if_splits)

lemma CollectionItem_insert_Inl:
  assumes "CollectionItem_insert sch uid key version collection s = (Inl e, s')"
  shows "items (tables s') = items (tables s)"
  using assms
  by (auto simp: CollectionItem_insert_def Let_def split: if_splits)

lemma CollectionMember_insert_frame:
  assumes "CollectionMember_insert sch collection usr level key s = (res, s')"
  shows "collections (tables s') = collections (tables s)"
    and "items (tables s') = items (tables s)"
    and "chunks (tables s') = chunks (tables s)"
    and "revisions (tables s') = revisions (tables s)"
    and "relations (tables s') = relations (tables s)"
    and "next_pk s' = next_pk s + 1"
    and "storage s' = storage s"
  using assms
  by (auto simp: CollectionMember_insert_def Let_def split: if_splits)

lemma CollectionMember_insert_Inr:
  assumes "CollectionMember_insert sch collection usr level key s = (Inr row, s')"
  shows "members (tables s') = members (tables s) @ [row]"
    and "mem_collection row = collection" and "mem_user row = usr"
    and "mem_accessLevel row = level" and "mem_encryptionKey row = key"
  using assms
  by (auto simp: CollectionMember_insert_def Let_def split: if_splits)

lemma CollectionItemRevision_update_frame:
  assumes "CollectionItemRevision_update sch row s = (res, s')"
  shows "collections (tables s') = collections (tables s)"
    and "items (tables s') = items (tables s)"
    and "chunks (tables s') = chunks (tables s)"
    and "relations (tables s') = relations (tables s)"
    and "members (tables s') = members (tables s)"
    and "next_pk s' = next_pk s"
    and "storage s' = storage s"
  using assms
  by (auto simp: CollectionItemRevision_update_def split: if_splits)

lemma CollectionItemRevision_update_Inr:
  assumes "CollectionItemRevision_update sch row s = (Inr u, s')"
  shows "revisions (tables s') =
           map (\<lambda>r. if rev_id r = rev_id row then row else r) (revisions (tables s))"
  using assms
  by (auto simp: CollectionItemRevision_update_def split: if_splits)

lemma CollectionItemRevision_update_Inl:
  assumes "CollectionItemRevision_update sch row s = (Inl e, s')"
  shows "s' = s"
  using assms
  by (auto simp: CollectionItemRevision_update_def split: if_splits)

lemma CollectionSerializer_create_Inr:
  assumes "CollectionSerializer_create sch vd s = (Inr instance, s')"
  obtains saved main_item revision member s1 s2 s3 s4 where
    "Collection_insert sch (cd_uid vd) (cd_version vd) (cd_owner vd) s = (Inr saved, s1)"
    "CollectionItem_insert sch None None (col_version saved) (Some (col_id saved)) s1
       = (Inr main_item, s2)"
    "instance = saved\<lparr>col_mainItem := Some (item_id main_item)\<rparr>"
    "process_revisions_for_item sch (item_id main_item) (cd_content vd) s2 = (Inr revision, s3)"
    "Collection_update sch instance s3 = (Inr (), s4)"
    "CollectionMember_insert sch (col_id instance) (cd_owner vd) ADMIN (cd_encryptionKey vd) s4
       = (Inr member, s')"
proof -
  from atomic_Inr[OF assms[unfolded CollectionSerializer_create_def]]
  show ?thesis
    by (auto simp: Let_def split: prod.splits sum.splits intro: that)
qed

lemma chunks_loop_append:
  "chunks_loop sch item (pre @ rest) objs s =
     (case chunks_loop sch item pre objs s of
        (Inl e, s') \<Rightarrow> (Inl e, s')
      | (Inr objs', s') \<Rightarrow> chunks_loop sch item rest objs' s')"
  by (induction pre arbitrary: objs s) (auto split: prod.splits sum.splits)

lemma storage_open_append:
  "storage_open s name = Some b \<Longrightarrow> storage s' = storage s @ zs \<Longrightarrow> storage_open s' name = Some b"
  by (auto simp: storage_open_def nth_append split: if_splits)

lemma supersede_no_current:
  "current_revisions s item = [] \<Longrightarrow> supersede sch item rd s = (Inl AttributeError, s)"
  by (simp add: supersede_def current_revisions_def revisions_first_def)

text \<open>
  The serializer stores an inline chunk whenever the schema accepts the row; it does not
  look for the uid itself.
\<close>

lemma CollectionItemChunk_new_accepted:
  assumes "chunk_constraint sch (tables s)
             \<lparr>chunk_id = next_pk s, chunk_uid = uid, chunk_item = item,
              chunk_chunkFile = length (storage s)\<rparr>"
  shows "fst (CollectionItemChunk_new sch uid item content s)
           = Inr \<lparr>chunk_id = next_pk s, chunk_uid = uid, chunk_item = item,
                  chunk_chunkFile = length (storage s)\<rparr>"
  using assms by (simp add: CollectionItemChunk_new_def storage_save_def Let_def)

subsection \<open>The primary-key invariant\<close>

lemma pk_invariantI:
  assumes "sorted_wrt (<) (map rev_id (revisions (tables s)))"
    "\<And>r. r \<in> set (revisions (tables s)) \<Longrightarrow> rev_id r < next_pk s"
    "\<And>r. r \<in> set (revisions (tables s)) \<Longrightarrow> rev_item r < next_pk s"
    "\<And>i. i \<in> set (items (tables s)) \<Longrightarrow> item_id i < next_pk s"
  shows "pk_invariant s"
  using assms unfolding pk_invariant_def by blast

lemma pk_invariantD:
  assumes "pk_invariant s"
  shows "sorted_wrt (<) (map rev_id (revisions (tables s)))"
    and "\<And>r. r \<in> set (revisions (tables s)) \<Longrightarrow> rev_id r < next_pk s"
    and "\<And>r. r \<in> set (revisions (tables s)) \<Longrightarrow> rev_item r < next_pk s"
    and "\<And>i. i \<in> set (items (tables s)) \<Longrightarrow> item_id i < next_pk s"
  using assms unfolding pk_invariant_def by blast+

lemma pk_invariant_frame:
  assumes "pk_invariant s" "revisions (tables s') = revisions (tables s)"
    "items (tables s') = items (tables s)" "next_pk s \<le> next_pk s'"
  shows "pk_invariant s'"
proof (rule pk_invariantI)
  note d = pk_invariantD[OF assms(1)]
  show "sorted_wrt (<) (map rev_id (revisions (tables s')))" using d(1) assms(2) by simp
  show "rev_id r < next_pk s'" if "r \<in> set (revisions (tables s'))" for r
    using d(2)[of r] that assms(2,4) by simp
  show "rev_item r < next_pk s'" if "r \<in> set (revisions (tables s'))" for r
    using d(3)[of r] that assms(2,4) by simp
  show "item_id i < next_pk s'" if "i \<in> set (items (tables s'))" for i
    using d(4)[of i] that assms(3,4) by simp
qed

lemma pk_invariant_new_item:
  assumes "pk_invariant s" "revisions (tables s') = revisions (tables s)"
    "items (tables s') = items (tables s) @ [row]" "item_id row < next_pk s'"
    "next_pk s \<le> next_pk s'"
  shows "pk_invariant s'"
proof (rule pk_invariantI)
  note d = pk_invariantD[OF assms(1)]
  show "sorted_wrt (<) (map rev_id (revisions (tables s')))" using d(1) assms(2) by simp
  show "rev_id r < next_pk s'" if "r \<in> set (revisions (tables s'))" for r
    using d(2)[of r] that assms(2,5) by simp
  show "rev_item r < next_pk s'" if "r \<in> set (revisions (tables s'))" for r
    using d(3)[of r] that assms(2,5) by simp
  show "item_id i < next_pk s'" if "i \<in> set (items (tables s'))" for i
  proof (cases "i = row")
    case True
    with assms(4) show ?thesis by simp
  next
    case False
    with that assms(3) have "i \<in> set (items (tables s))" by simp
    from d(4)[OF this] assms(5) show ?thesis by simp
  qed
qed

lemma pk_invariant_new_revision:
  assumes "pk_invariant s" "revisions (tables s') = revisions (tables s) @ [row]"
    "items (tables s') = items (tables s)" "next_pk s \<le> rev_id row" "rev_id row < next_pk s'"
    "rev_item row < next_pk s'"
  shows "pk_invariant s'"
proof (rule pk_invariantI)
  note d = pk_invariantD[OF assms(1)]
  have le: "next_pk s \<le> next_pk s'" using assms(4,5) by simp
  have "rev_id r < rev_id row" if "r \<in> set (revisions (tables s))" for r
    using d(2)[OF that] assms(4) by simp
  then show "sorted_wrt (<) (map rev_id (revisions (tables s')))"
    using d(1) unfolding assms(2) by (simp add: sorted_wrt_append)
  show "rev_id r < next_pk s'" if "r \<in> set (revisions (tables s'))" for r
  proof (cases "r = row")
    case True
    with assms(5) show ?thesis by simp
  next
    case False
    with that assms(2) have "r \<in> set (revisions (tables s))" by simp
    from d(2)[OF this] le show ?thesis by simp
  qed
  show "rev_item r < next_pk s'" if "r \<in> set (revisions (tables s'))" for r
  proof (cases "r = row")
    case True
    with assms(6) show ?thesis by simp
  next
    case False
    with that assms(2) have "r \<in> set (revisions (tables s))" by simp
    from d(3)[OF this] le show ?thesis by simp
  qed
  show "item_id i < next_pk s'" if "i \<in> set (items (tables s'))" for i
    using d(4)[of i] that assms(3) le by simp
qed

lemma pk_invariant_demote:
  assumes "pk_invariant s" "r \<in> set (revisions (tables s))"
    "revisions (tables s') =
       map (\<lambda>x. if rev_id x = rev_id r then r\<lparr>rev_current := None\<rparr> else x) (revisions (tables s))"
    "items (tables s') = items (tables s)" "next_pk s' = next_pk s"
  shows "pk_invariant s'"
proof -
  let ?upd = "\<lambda>x. if rev_id x = rev_id r then r\<lparr>rev_current := None\<rparr> else x"
  have ids: "map rev_id (map ?upd xs) = map rev_id xs" for xs
    by (induction xs) auto
  note d = pk_invariantD[OF assms(1)]
  have 1: "sorted_wrt (<) (map rev_id (revisions (tables s')))"
    using d(1) unfolding assms(3) ids .
  have 2: "rev_id y < next_pk s' \<and> rev_item y < next_pk s'"
    if "y \<in> set (revisions (tables s'))" for y
  proof -
    from that obtain x where x: "x \<in> set (revisions (tables s))" "y = ?upd x"
      unfolding assms(3) by auto
    from d(2,3)[OF x(1)] have bx: "rev_id x < next_pk s \<and> rev_item x < next_pk s"
      by simp
    from d(2,3)[OF assms(2)] have br: "rev_id r < next_pk s \<and> rev_item r < next_pk s"
      by simp
    show ?thesis using x(2) bx br assms(5) by (cases "rev_id x = rev_id r") simp_all
  qed
  have 3: "item_id i < next_pk s'" if "i \<in> set (items (tables s'))" for i
    using d(4)[of i] that assms(4,5) by simp
  from 1 2 3 show ?thesis by (intro pk_invariantI) auto
qed

lemma pk_invariant_process_revisions:
  assumes "process_revisions_for_item sch item rd s = (res, s')" "pk_invariant s"
    "item < next_pk s"
  shows "pk_invariant s'"
proof (cases res)
  case (Inl e)
  obtain r1 s1 where l1: "chunks_loop sch item (rd_chunks_relation rd) [] s = (r1, s1)"
    by (cases "chunks_loop sch item (rd_chunks_relation rd) [] s") blast
  note f1 = chunks_loop_frame[OF l1]
  have i1: "pk_invariant s1" by (rule pk_invariant_frame[OF assms(2)]) (use f1 in simp_all)
  show ?thesis
  proof (cases r1)
    case Inl
    with assms l1 have "s' = s1" by (simp add: process_revisions_for_item_def)
    with i1 show ?thesis by simp
  next
    case (Inr objs)
    obtain r2 s2 where l2: "CollectionItemRevision_create sch rd item s1 = (r2, s2)"
      by (cases "CollectionItemRevision_create sch rd item s1") blast
    note f2 = CollectionItemRevision_create_frame[OF l2]
    show ?thesis
    proof (cases r2)
      case Inl
      with assms l1 l2 Inr have "s' = s2" by (simp add: process_revisions_for_item_def)
      moreover have "tables s2 = tables s1" using l2 Inl
        by (simp add: CollectionItemRevision_create_Inl)
      ultimately show ?thesis using f2 by (intro pk_invariant_frame[OF i1]) simp_all
    next
      case r2: (Inr revision)
      note n2 = CollectionItemRevision_create_Inr[OF l2[unfolded r2]]
      have i2: "pk_invariant s2"
        by (rule pk_invariant_new_revision[OF i1, of s2 revision]) (use n2 f2 f1 assms(3) in simp_all)
      obtain r3 s3 where l3: "relations_loop sch objs revision s2 = (r3, s3)"
        by (cases "relations_loop sch objs revision s2") blast
      note f3 = relations_loop_frame[OF l3]
      from assms l1 l2 l3 Inr r2 have "s' = s3"
        by (auto simp: process_revisions_for_item_def split: sum.splits)
      with f3 show ?thesis by (intro pk_invariant_frame[OF i2]) simp_all
    qed
  qed
next
  case (Inr revision)
  note n = process_revisions_for_item_revisions[OF assms(1)[unfolded Inr]]
  note f = process_revisions_for_item_frame[OF assms(1)]
  show ?thesis
    by (rule pk_invariant_new_revision[OF assms(2), of s' revision]) (use assms(3) n f in simp_all)
qed

lemma pk_invariant_rollback:
  assumes "pk_invariant s" "next_pk s \<le> next_pk s'"
  shows "pk_invariant (s'\<lparr>tables := tables s\<rparr>)"
  by (rule pk_invariant_frame[OF assms(1)]) (use assms(2) in simp_all)

lemma revisions_first_Some:
  "revisions_first qs = Some r \<Longrightarrow> r \<in> set qs"
proof -
  assume "revisions_first qs = Some r"
  then have "sort_key rev_id qs \<noteq> [] \<and> r = hd (sort_key rev_id qs)"
    by (simp add: revisions_first_def split: list.splits)
  then have "r \<in> set (sort_key rev_id qs)" by (metis hd_in_set)
  then show ?thesis by (simp only: set_sort)
qed

lemma supersede_cases:
  assumes "supersede sch item rd s = (res, s')"
  obtains (none) "current_revisions s item = []" "res = Inl AttributeError" "s' = s"
  | (save_failed) r e where "revisions_first (current_revisions s item) = Some r"
      "CollectionItemRevision_update sch (r\<lparr>rev_current := None\<rparr>) s = (Inl e, s')"
      "res = Inl e"
  | (saved) r s1 r2 where "revisions_first (current_revisions s item) = Some r"
      "CollectionItemRevision_update sch (r\<lparr>rev_current := None\<rparr>) s = (Inr (), s1)"
      "process_revisions_for_item sch item rd s1 = (r2, s')"
      "res = map_sum id (\<lambda>x. ()) r2"
proof (cases "revisions_first (current_revisions s item)")
  case None
  then have "sort_key rev_id (current_revisions s item) = []"
    by (simp add: revisions_first_def split: list.splits)
  then have "current_revisions s item = []"
    by (metis length_0_conv length_sort)
  moreover from None assms have "res = Inl AttributeError" "s' = s"
    by (simp_all add: supersede_def current_revisions_def)
  ultimately show ?thesis by (rule none)
next
  case (Some r)
  obtain u s1 where upd: "CollectionItemRevision_update sch (r\<lparr>rev_current := None\<rparr>) s = (u, s1)"
    by (cases "CollectionItemRevision_update sch (r\<lparr>rev_current := None\<rparr>) s") blast
  show ?thesis
  proof (cases u)
    case (Inl e)
    with Some upd assms have "res = Inl e" "s' = s1"
      by (simp_all add: supersede_def current_revisions_def)
    with Some upd Inl show ?thesis by (intro save_failed[of r e]) simp_all
  next
    case (Inr x)
    obtain r2 s2 where p: "process_revisions_for_item sch item rd s1 = (r2, s2)"
      by (cases "process_revisions_for_item sch item rd s1") blast
    with Some upd Inr assms have "res = map_sum id (\<lambda>x. ()) r2" "s' = s2"
      by (auto simp: supersede_def current_revisions_def split: sum.splits)
    with Some upd Inr p show ?thesis by (intro saved[of r s1 r2]) simp_all
  qed
qed

lemma current_revision_first:
  assumes "revisions_first (current_revisions s item) = Some r"
  shows "r \<in> set (revisions (tables s))" "rev_item r = item" "rev_current r = Some True"
proof -
  from revisions_first_Some[OF assms] have "r \<in> set (current_revisions s item)" .
  then show "r \<in> set (revisions (tables s))" "rev_item r = item" "rev_current r = Some True"
    by (simp_all add: current_revisions_def)
qed

lemma supersede_frame:
  assumes "supersede sch item rd s = (res, s')"
  shows "collections (tables s') = collections (tables s)
       \<and> items (tables s') = items (tables s)
       \<and> members (tables s') = members (tables s)
       \<and> next_pk s \<le> next_pk s'"
  using assms
proof (cases rule: supersede_cases)
  case none
  then show ?thesis by simp
next
  case (save_failed r e)
  from CollectionItemRevision_update_Inl[OF save_failed(2)] show ?thesis by simp
next
  case (saved r s1 r2)
  note f1 = CollectionItemRevision_update_frame[OF saved(2)]
  note f2 = process_revisions_for_item_frame[OF saved(3)]
  from f1 f2 show ?thesis by simp
qed

lemma pk_invariant_supersede:
  assumes "supersede sch item rd s = (res, s')" "pk_invariant s"
  shows "pk_invariant s'"
  using assms(1)
proof (cases rule: supersede_cases)
  case none
  with assms(2) show ?thesis by simp
next
  case (save_failed r e)
  from CollectionItemRevision_update_Inl[OF save_failed(2)] assms(2) show ?thesis by simp
next
  case (saved r s1 r2)
  note c = current_revision_first[OF saved(1)]
  note f1 = CollectionItemRevision_update_frame[OF saved(2)]
  have i1: "pk_invariant s1"
    by (rule pk_invariant_demote[OF assms(2) c(1)])
       (use CollectionItemRevision_update_Inr[OF saved(2)] f1 in simp_all)
  have "item < next_pk s1" using pk_invariantD(3)[OF assms(2) c(1)] c(2) f1 by simp
  from pk_invariant_process_revisions[OF saved(3) i1 this] show ?thesis .
qed

lemma pk_invariant_handle:
  assumes "pk_invariant s"
  shows "pk_invariant (handle sch req s)"
proof (cases req)
  case (ItemCreate vd)
  obtain res s' where h: "CollectionItemSerializer_create sch vd s = (res, s')"
    by (cases "CollectionItemSerializer_create sch vd s") blast
  obtain r1 s1 where l1: "CollectionItem_insert sch (Some (vd_uid vd)) (Some (vd_encryptionKey vd))
      (vd_version vd) (vd_collection vd) s = (r1, s1)"
    by (cases "CollectionItem_insert sch (Some (vd_uid vd)) (Some (vd_encryptionKey vd))
      (vd_version vd) (vd_collection vd) s") blast
  note f1 = CollectionItem_insert_frame[OF l1]
  have "pk_invariant s'"
  proof (cases r1)
    case (Inl e)
    with h l1 have "s' = s1\<lparr>tables := tables s\<rparr>"
      by (simp add: CollectionItemSerializer_create_def atomic_def)
    with f1 show ?thesis by (simp add: pk_invariant_rollback[OF assms])
  next
    case (Inr row)
    note n1 = CollectionItem_insert_Inr[OF l1[unfolded Inr]]
    have i1: "pk_invariant s1"
      by (rule pk_invariant_new_item[OF assms, of s1 row]) (use f1 n1 in simp_all)
    obtain r2 s2 where l2: "process_revisions_for_item sch (item_id row) (vd_content vd) s1 = (r2, s2)"
      by (cases "process_revisions_for_item sch (item_id row) (vd_content vd) s1") blast
    have lt: "item_id row < next_pk s1" using n1 f1 by simp
    note i2 = pk_invariant_process_revisions[OF l2 i1 lt]
    note f2 = process_revisions_for_item_frame[OF l2]
    show ?thesis
    proof (cases r2)
      case Inl
      with h l1 l2 Inr have "s' = s2\<lparr>tables := tables s\<rparr>"
        by (simp add: CollectionItemSerializer_create_def atomic_def)
      moreover have "next_pk s \<le> next_pk s2" using f1 f2 by simp
      ultimately show ?thesis by (simp add: pk_invariant_rollback[OF assms])
    next
      case r2: (Inr revision)
      with h l1 l2 Inr have "s' = s2"
        by (simp add: CollectionItemSerializer_create_def atomic_def)
      with i2 show ?thesis by simp
    qed
  qed
  with ItemCreate h show ?thesis by simp
next
  case (ItemUpdate inst vd)
  obtain res s' where h: "CollectionItemSerializer_update sch inst vd s = (res, s')"
    by (cases "CollectionItemSerializer_update sch inst vd s") blast
  obtain r1 s1 where l1: "supersede sch (item_id inst) (vd_content vd) s = (r1, s1)"
    by (cases "supersede sch (item_id inst) (vd_content vd) s") blast
  have "pk_invariant s'"
  proof (cases r1)
    case (Inl e)
    with h l1 have "s' = s1\<lparr>tables := tables s\<rparr>"
      by (simp add: CollectionItemSerializer_update_def atomic_def)
    with supersede_frame[OF l1] show ?thesis by (simp add: pk_invariant_rollback[OF assms])
  next
    case (Inr u)
    with h l1 have "s' = s1"
      by (simp add: CollectionItemSerializer_update_def atomic_def)
    with pk_invariant_supersede[OF l1 assms] show ?thesis by simp
  qed
  with ItemUpdate h show ?thesis by simp
next
  case (CollectionUpdate inst vd)
  obtain res s' where h: "CollectionSerializer_update sch inst vd s = (res, s')"
    by (cases "CollectionSerializer_update sch inst vd s") blast
  have "pk_invariant s'"
  proof (cases "col_mainItem inst")
    case None
    with h have "s' = s" by (simp add: CollectionSerializer_update_def atomic_def)
    with assms show ?thesis by simp
  next
    case (Some main_item)
    obtain r1 s1 where l1: "supersede sch main_item (cd_content vd) s = (r1, s1)"
      by (cases "supersede sch main_item (cd_content vd) s") blast
    show ?thesis
    proof (cases r1)
      case (Inl e)
      with h l1 Some have "s' = s1\<lparr>tables := tables s\<rparr>"
        by (simp add: CollectionSerializer_update_def atomic_def)
      with supersede_frame[OF l1] show ?thesis by (simp add: pk_invariant_rollback[OF assms])
    next
      case (Inr u)
      with h l1 Some have "s' = s1"
        by (simp add: CollectionSerializer_update_def atomic_def)
      with pk_invariant_supersede[OF l1 assms] show ?thesis by simp
    qed
  qed
  with CollectionUpdate h show ?thesis by simp
next
  case (CollectionCreate vd)
  obtain res s' where h: "CollectionSerializer_create sch vd s = (res, s')"
    by (cases "CollectionSerializer_create sch vd s") blast
  have "pk_invariant s'"
  proof (cases res)
    case (Inr inst)
    from h[unfolded Inr] obtain saved main_item revision member s1 s2 s3 s4 where
      l1: "Collection_insert sch (cd_uid vd) (cd_version vd) (cd_owner vd) s = (Inr saved, s1)" and
      l2: "CollectionItem_insert sch None None (col_version saved) (Some (col_id saved)) s1
             = (Inr main_item, s2)" and
      l3: "process_revisions_for_item sch (item_id main_item) (cd_content vd) s2
             = (Inr revision, s3)" and
      l4: "Collection_update sch inst s3 = (Inr (), s4)" and
      l5: "CollectionMember_insert sch (col_id inst) (cd_owner vd) ADMIN
             (cd_encryptionKey vd) s4 = (Inr member, s')"
      by (rule CollectionSerializer_create_Inr)
    note f1 = Collection_insert_frame[OF l1]
    note f2 = CollectionItem_insert_frame[OF l2] and n2 = CollectionItem_insert_Inr[OF l2]
    note f4 = Collection_update_frame[OF l4]
    note f5 = CollectionMember_insert_frame[OF l5]
    have i1: "pk_invariant s1" by (rule pk_invariant_frame[OF assms]) (use f1 in simp_all)
    have i2: "pk_invariant s2"
      by (rule pk_invariant_new_item[OF i1, of s2 main_item]) (use f2 n2 in simp_all)
    have lt: "item_id main_item < next_pk s2" using n2 f2 by simp
    note i3 = pk_invariant_process_revisions[OF l3 i2 lt]
    have i4: "pk_invariant s4" by (rule pk_invariant_frame[OF i3]) (use f4 in simp_all)
    show ?thesis by (rule pk_invariant_frame[OF i4]) (use f5 in simp_all)
  next
    case (Inl e)
    from h[unfolded CollectionSerializer_create_def] obtain e1 sx where
      b: "s' = sx\<lparr>tables := tables s\<rparr>" and
      body: "(case Collection_insert sch (cd_uid vd) (cd_version vd) (cd_owner vd) s of
         (Inl e, s1) \<Rightarrow> (Inl e, s1)
       | (Inr saved, s1) \<Rightarrow>
           (case CollectionItem_insert sch None None (col_version saved)
                   (Some (col_id saved)) s1 of
              (Inl e, s2) \<Rightarrow> (Inl e, s2)
            | (Inr main_item, s2) \<Rightarrow>
                (let instance = saved\<lparr>col_mainItem := Some (item_id main_item)\<rparr> in
                 case process_revisions_for_item sch (item_id main_item)
                        (cd_content vd) s2 of
                   (Inl e, s3) \<Rightarrow> (Inl e, s3)
                 | (Inr revision, s3) \<Rightarrow>
                     (case Collection_update sch instance s3 of
                        (Inl e, s4) \<Rightarrow> (Inl e, s4)
                      | (Inr u, s4) \<Rightarrow>
                          (case CollectionMember_insert sch (col_id instance)
                                  (cd_owner vd) ADMIN
                                  (cd_encryptionKey vd) s4 of
                             (Inl e, s5) \<Rightarrow> (Inl e, s5)
                           | (Inr member, s5) \<Rightarrow> (Inr instance, s5)))))) = (Inl e1, sx)"
      using Inl by (cases rule: atomic_cases) auto
    have "next_pk s \<le> next_pk sx"
      using body
      by (auto simp: Let_def split: prod.splits sum.splits
            dest!: Collection_insert_frame(6) CollectionItem_insert_frame(6)
                   process_revisions_for_item_frame Collection_update_frame(6)
                   CollectionMember_insert_frame(6))
    with b show ?thesis by (simp add: pk_invariant_rollback[OF assms])
  qed
  with CollectionCreate h show ?thesis by simp
qed

lemma pk_invariant_handle_all:
  "pk_invariant s \<Longrightarrow> pk_invariant (handle_all sch reqs s)"
  by (induction reqs arbitrary: s) (simp_all add: pk_invariant_handle)

lemma pk_invariant_empty: "pk_invariant empty_state"
  by (simp add: pk_invariant_def empty_state_def)

lemma demote_count:
  assumes "distinct (map rev_id revs)" "r \<in> set revs"
  shows "length (filter P (map (\<lambda>x. if rev_id x = rev_id r then r' else x) revs))
           + (if P r then 1 else 0)
         = length (filter P revs) + (if P r' then 1 else 0)"
proof -
  from assms(2) obtain xs ys where revs: "revs = xs @ r # ys" by (auto dest: split_list)
  with assms(1) have n: "rev_id r \<notin> rev_id ` set xs" "rev_id r \<notin> rev_id ` set ys" by auto
  have nx: "rev_id x \<noteq> rev_id r" if "x \<in> set xs" for x
    using n(1) that by (metis imageI)
  have ny: "rev_id y \<noteq> rev_id r" if "y \<in> set ys" for y
    using n(2) that by (metis imageI)
  have mx: "map (\<lambda>x. if rev_id x = rev_id r then r' else x) xs = xs"
    using nx by (intro map_idI) simp
  have my: "map (\<lambda>x. if rev_id x = rev_id r then r' else x) ys = ys"
    using ny by (intro map_idI) simp
  show ?thesis unfolding revs by (simp add: mx my)
qed

lemma supersede_counts:
  assumes "supersede sch item rd s = (Inr u, s')" "pk_invariant s"
    "revision_current_default sch = Some True"
  shows "length (current_revisions s' j) = length (current_revisions s j)"
  using assms(1)
proof (cases rule: supersede_cases)
  case none
  then show ?thesis by simp
next
  case (save_failed r e)
  then show ?thesis by simp
next
  case (saved r s1 r2)
  from saved(4) obtain revision where r2: "r2 = Inr revision" by (cases r2) auto
  note c = current_revision_first[OF saved(1)]
  note u = CollectionItemRevision_update_Inr[OF saved(2)]
  note p = process_revisions_for_item_revisions[OF saved(3)[unfolded r2]]
  let ?P = "\<lambda>x. rev_item x = j \<and> rev_current x = Some True"
  have d: "distinct (map rev_id (revisions (tables s)))"
    using pk_invariantD(1)[OF assms(2)] by (simp add: strict_sorted_iff)
  from demote_count[OF d c(1), of ?P "r\<lparr>rev_current := None\<rparr>"]
  have 1: "length (current_revisions s1 j) + (if j = item then 1 else 0)
             = length (current_revisions s j)"
    using c(2,3) by (auto simp: current_revisions_def u)
  have 2: "length (current_revisions s' j)
             = length (current_revisions s1 j) + (if j = item then 1 else 0)"
    using p(1,4,5) assms(3) by (auto simp: current_revisions_def)
  from 1 2 show ?thesis by simp
qed

lemma single_current_supersede:
  assumes "supersede sch item rd s = (Inr u, s')" "pk_invariant s"
    "revision_current_default sch = Some True" "single_current s"
  shows "single_current s'"
  using assms(4) supersede_frame[OF assms(1)] supersede_counts[OF assms(1-3)]
  by (simp add: single_current_def)

lemma single_current_new_item:
  assumes "CollectionItem_insert sch uid key version collection s = (Inr row, s1)"
    "process_revisions_for_item sch (item_id row) rd s1 = (Inr revision, s2)"
    "pk_invariant s" "revision_current_default sch = Some True" "single_current s"
  shows "single_current s2"
proof -
  note f1 = CollectionItem_insert_frame[OF assms(1)] and n1 = CollectionItem_insert_Inr[OF assms(1)]
  note f2 = process_revisions_for_item_frame[OF assms(2)]
  note p = process_revisions_for_item_revisions[OF assms(2)]
  note d = pk_invariantD[OF assms(3)]
  have cnt: "length (current_revisions s2 j)
               = length (current_revisions s j) + (if j = item_id row then 1 else 0)" for j
    using p(1,4,5) assms(4) f1(3) by (auto simp: current_revisions_def)
  have fresh: "current_revisions s (item_id row) = []"
  proof -
    have "rev_item r \<noteq> item_id row" if "r \<in> set (revisions (tables s))" for r
      using d(3)[OF that] n1(2) by simp
    then show ?thesis by (auto simp: current_revisions_def filter_empty_conv)
  qed
  have "length (current_revisions s2 (item_id i)) = 1" if "i \<in> set (items (tables s2))" for i
  proof (cases "i = row")
    case True
    with cnt[of "item_id row"] fresh show ?thesis by simp
  next
    case False
    with that f2 n1(1) have i: "i \<in> set (items (tables s))" by simp
    from d(4)[OF i] n1(2) have "item_id i \<noteq> item_id row" by simp
    with cnt[of "item_id i"] assms(5) i show ?thesis by (simp add: single_current_def)
  qed
  then show ?thesis by (simp add: single_current_def)
qed

lemma single_current_frame:
  assumes "single_current s" "revisions (tables s') = revisions (tables s)"
    "items (tables s') = items (tables s)"
  shows "single_current s'"
  using assms by (simp add: single_current_def current_revisions_def)


lemma CollectionItemSerializer_create_Inr:
  assumes "CollectionItemSerializer_create sch vd s = (Inr inst, s')"
  obtains s1 revision where
    "CollectionItem_insert sch (Some (vd_uid vd)) (Some (vd_encryptionKey vd))
       (vd_version vd) (vd_collection vd) s = (Inr inst, s1)"
    "process_revisions_for_item sch (item_id inst) (vd_content vd) s1 = (Inr revision, s')"
proof -
  obtain r1 s1 where l1: "CollectionItem_insert sch (Some (vd_uid vd))
      (Some (vd_encryptionKey vd)) (vd_version vd) (vd_collection vd) s = (r1, s1)"
    by (cases "CollectionItem_insert sch (Some (vd_uid vd)) (Some (vd_encryptionKey vd))
      (vd_version vd) (vd_collection vd) s") blast
  note b = atomic_Inr[OF assms[unfolded CollectionItemSerializer_create_def]]
  from b l1 obtain row where r1: "r1 = Inr row" by (cases r1) simp_all
  obtain r2 s2 where l2: "process_revisions_for_item sch (item_id row) (vd_content vd) s1 = (r2, s2)"
    by (cases "process_revisions_for_item sch (item_id row) (vd_content vd) s1") blast
  from b l1 r1 l2 obtain revision where r2: "r2 = Inr revision" by (cases r2) simp_all
  from b l1 r1 l2 r2 have "inst = row" "s' = s2" by simp_all
  with l1 r1 l2 r2 show ?thesis by (intro that[of s1 revision]) simp_all
qed

lemma CollectionItemSerializer_update_Inr:
  assumes "CollectionItemSerializer_update sch inst vd s = (Inr v, s')"
  shows "supersede sch (item_id inst) (vd_content vd) s = (Inr (), s')"
proof -
  obtain r1 s1 where l1: "supersede sch (item_id inst) (vd_content vd) s = (r1, s1)"
    by (cases "supersede sch (item_id inst) (vd_content vd) s") blast
  note b = atomic_Inr[OF assms[unfolded CollectionItemSerializer_update_def]]
  from b l1 show ?thesis by (cases r1) simp_all
qed

lemma CollectionSerializer_update_Inr:
  assumes "CollectionSerializer_update sch inst vd s = (Inr v, s')"
  obtains main_item where "col_mainItem inst = Some main_item"
    "supersede sch main_item (cd_content vd) s = (Inr (), s')"
proof -
  note b = atomic_Inr[OF assms[unfolded CollectionSerializer_update_def]]
  then obtain main_item where m: "col_mainItem inst = Some main_item"
    by (cases "col_mainItem inst") simp_all
  obtain r1 s1 where l1: "supersede sch main_item (cd_content vd) s = (r1, s1)"
    by (cases "supersede sch main_item (cd_content vd) s") blast
  from b m l1 have "supersede sch main_item (cd_content vd) s = (Inr (), s')"
    by (cases r1) simp_all
  with m show ?thesis by (rule that)
qed

lemma single_current_handle:
  assumes "pk_invariant s" "single_current s" "revision_current_default sch = Some True"
  shows "single_current (handle sch req s)"
proof (cases req)
  case (ItemCreate vd)
  obtain res s' where h: "CollectionItemSerializer_create sch vd s = (res, s')"
    by (cases "CollectionItemSerializer_create sch vd s") blast
  have "single_current s'"
  proof (cases res)
    case (Inl e)
    note t = atomic_Inl_tables[OF h[unfolded Inl CollectionItemSerializer_create_def]]
    show ?thesis by (rule single_current_frame[OF assms(2)]) (simp_all add: t)
  next
    case (Inr inst)
    from h[unfolded Inr] obtain s1 revision where
      "CollectionItem_insert sch (Some (vd_uid vd)) (Some (vd_encryptionKey vd))
         (vd_version vd) (vd_collection vd) s = (Inr inst, s1)"
      "process_revisions_for_item sch (item_id inst) (vd_content vd) s1 = (Inr revision, s')"
      by (rule CollectionItemSerializer_create_Inr)
    from single_current_new_item[OF this assms(1,3,2)] show ?thesis .
  qed
  with ItemCreate h show ?thesis by simp
next
  case (ItemUpdate inst vd)
  obtain res s' where h: "CollectionItemSerializer_update sch inst vd s = (res, s')"
    by (cases "CollectionItemSerializer_update sch inst vd s") blast
  have "single_current s'"
  proof (cases res)
    case (Inl e)
    note t = atomic_Inl_tables[OF h[unfolded Inl CollectionItemSerializer_update_def]]
    show ?thesis by (rule single_current_frame[OF assms(2)]) (simp_all add: t)
  next
    case (Inr v)
    note u = CollectionItemSerializer_update_Inr[OF h[unfolded Inr]]
    from single_current_supersede[OF u assms(1,3,2)] show ?thesis .
  qed
  with ItemUpdate h show ?thesis by simp
next
  case (CollectionUpdate inst vd)
  obtain res s' where h: "CollectionSerializer_update sch inst vd s = (res, s')"
    by (cases "CollectionSerializer_update sch inst vd s") blast
  have "single_current s'"
  proof (cases res)
    case (Inl e)
    note t = atomic_Inl_tables[OF h[unfolded Inl CollectionSerializer_update_def]]
    show ?thesis by (rule single_current_frame[OF assms(2)]) (simp_all add: t)
  next
    case (Inr v)
    from h[unfolded Inr] obtain main_item where
      "supersede sch main_item (cd_content vd) s = (Inr (), s')"
      by (rule CollectionSerializer_update_Inr)
    from single_current_supersede[OF this assms(1,3,2)] show ?thesis .
  qed
  with CollectionUpdate h show ?thesis by simp
next
  case (CollectionCreate vd)
  obtain res s' where h: "CollectionSerializer_create sch vd s = (res, s')"
    by (cases "CollectionSerializer_create sch vd s") blast
  have "single_current s'"
  proof (cases res)
    case (Inl e)
    note t = atomic_Inl_tables[OF h[unfolded Inl CollectionSerializer_create_def]]
    show ?thesis by (rule single_current_frame[OF assms(2)]) (simp_all add: t)
  next
    case (Inr inst)
    from h[unfolded Inr] obtain saved main_item revision member s1 s2 s3 s4 where
      l1: "Collection_insert sch (cd_uid vd) (cd_version vd) (cd_owner vd) s = (Inr saved, s1)" and
      l2: "CollectionItem_insert sch None None (col_version saved) (Some (col_id saved)) s1
             = (Inr main_item, s2)" and
      l3: "process_revisions_for_item sch (item_id main_item) (cd_content vd) s2
             = (Inr revision, s3)" and
      l4: "Collection_update sch inst s3 = (Inr (), s4)" and
      l5: "CollectionMember_insert sch (col_id inst) (cd_owner vd) ADMIN
             (cd_encryptionKey vd) s4 = (Inr member, s')"
      by (rule CollectionSerializer_create_Inr)
    note f1 = Collection_insert_frame[OF l1]
    note f4 = Collection_update_frame[OF l4]
    note f5 = CollectionMember_insert_frame[OF l5]
    have i1: "pk_invariant s1" by (rule pk_invariant_frame[OF assms(1)]) (use f1 in simp_all)
    have c1: "single_current s1" by (rule single_current_frame[OF assms(2)]) (use f1 in simp_all)
    note c3 = single_current_new_item[OF l2 l3 i1 assms(3) c1]
    have c4: "single_current s4" by (rule single_current_frame[OF c3]) (use f4 in simp_all)
    show ?thesis by (rule single_current_frame[OF c4]) (use f5 in simp_all)
  qed
  with CollectionCreate h show ?thesis by simp
qed

lemma single_current_handle_all:
  assumes "revision_current_default sch = Some True"
  shows "pk_invariant s \<Longrightarrow> single_current s \<Longrightarrow> single_current (handle_all sch reqs s)"
  by (induction reqs arbitrary: s) (simp_all add: pk_invariant_handle single_current_handle assms)

lemma single_current_empty: "single_current empty_state"
  by (simp add: single_current_def empty_state_def)

lemma revisions_last_sorted:
  assumes "sorted_wrt (<) (map rev_id qs)"
  shows "revisions_last qs = (if qs = [] then None else Some (last qs))"
proof -
  from assms have "sorted (map rev_id qs)" by (rule strict_sorted_imp_sorted)
  then have "sort_key rev_id qs = qs" by (rule sort_key_id_if_sorted)
  then show ?thesis
    by (cases qs rule: rev_cases) (simp_all add: revisions_last_def)
qed

lemma collection_revisions_sorted:
  assumes "pk_invariant s"
  shows "sorted_wrt (<) (map rev_id (collection_revisions s obj))"
proof -
  have "sorted_wrt (\<lambda>a b. rev_id a < rev_id b) (revisions (tables s))"
    using pk_invariantD(1)[OF assms] by (simp add: sorted_wrt_map)
  then have "sorted_wrt (\<lambda>a b. rev_id a < rev_id b) (collection_revisions s obj)"
    unfolding collection_revisions_def by (rule sorted_wrt_filter)
  then show ?thesis by (simp add: sorted_wrt_map)
qed


lemma collection_revisions_members:
  "collection_revisions s obj =
     filter (\<lambda>r. \<exists>i \<in> set (items (tables s)).
                  item_id i = rev_item r \<and> item_collection i = Some (col_id obj))
       (revisions (tables s))"
  unfolding collection_revisions_def
  by (rule filter_cong) (auto simp: filter_empty_conv)

lemma sorted_wrt_less_last:
  assumes "sorted_wrt (<) (map f qs)" "r \<in> set qs"
  shows "(f r :: nat) \<le> f (last qs)"
proof (cases qs rule: rev_cases)
  case Nil
  with assms(2) show ?thesis by simp
next
  case (snoc ys y)
  with assms show ?thesis by (auto simp: sorted_wrt_append)
qed

section \<open>Claims\<close>

text \<open>
  Claim C8. For every byte string \<open>b\<close>, decoding the encoding of \<open>b\<close> gives
  \<open>b\<close> back, and the text produced by \<open>b64encode\<close> holds no padding character
  \<open>=\<close>.
\<close>

theorem b64_roundtrip:
  "b64decode (b64encode b) = Inr b \<and> CHR ''='' \<notin> set (b64encode b)"
  by (simp add: b64decode_b64encode b64encode_no_padding)

theorem b64_roundtrip_witness:
  "b64decode (b64encode [104, 101, 108, 108, 111]) = Inr [104, 101, 108, 108, 111]
   \<and> CHR ''='' \<notin> set (b64encode [104, 101, 108, 108, 111])"
  by (rule b64_roundtrip)

text \<open>
  Claim C9. A chunk element of the reference-only shape \<open>[uid]\<close> is accepted by
  \<open>ChunksField.to_internal_value\<close> as the two-element shape is. The code does not do
  that: on \<open>[uid]\<close> the index \<open>data[1]\<close> is out of range and \<open>IndexError\<close> is
  raised, whereas \<open>[uid, text]\<close> with an encoded \<open>text\<close> is decoded.
\<close>

theorem to_internal_value_rejects_reference_shape:
  "ChunksField_to_internal_value [uid] = Inl IndexError
   \<and> ChunksField_to_internal_value [uid, b64encode content] = Inr (Tuple2 uid content)"
  by (simp add: ChunksField_to_internal_value_def getitem_def b64decode_b64encode)

text \<open>
  Claim C3. For an item that has no revision with \<open>current = True\<close>, the update
  operation fails and leaves the stored state unchanged; both \<open>update\<close> methods raise
  \<open>AttributeError\<close>, the error the specification calls \<open>NoCurrentRevisionError\<close>.
\<close>

theorem update_without_current_revision_fails:
  assumes "current_revisions s (item_id item) = []"
  shows "CollectionItemSerializer_update sch item vd s = (Inl AttributeError, s)
       \<and> CollectionSerializer_update sch (col\<lparr>col_mainItem := Some (item_id item)\<rparr>) cd s
           = (Inl AttributeError, s)"
  using assms
  by (simp add: CollectionItemSerializer_update_def CollectionSerializer_update_def atomic_def
        supersede_no_current)

theorem update_without_current_revision_fails_witness:
  "current_revisions scenario_inserted (item_id scenario_item_row) = []
   \<and> CollectionItemSerializer_update scenario_schema scenario_item_row
         (scenario_item scenario_r2) scenario_inserted
       = (Inl AttributeError, scenario_inserted)
   \<and> CollectionSerializer_update scenario_schema
         (scenario_collection_row\<lparr>col_mainItem := Some (item_id scenario_item_row)\<rparr>)
         (scenario_collection (Some 7)) scenario_inserted
       = (Inl AttributeError, scenario_inserted)"
proof -
  have h: "current_revisions scenario_inserted (item_id scenario_item_row) = []"
    by (simp add: current_revisions_def scenario_inserted_def)
  from update_without_current_revision_fails[OF h] h show ?thesis by (intro conjI) blast+
qed

text \<open>
  Claim C4. When \<open>CollectionSerializer.create\<close> fails, at whichever step, none of the
  rows it wrote is visible afterwards: the tables are those from before the call.
\<close>

theorem create_collection_all_or_nothing:
  assumes "CollectionSerializer_create sch validated_data s = (Inl e, s')"
  shows "tables s' = tables s"
  using assms unfolding CollectionSerializer_create_def by (rule atomic_Inl_tables)

text \<open>
  The witness fails in the fourth step: the chunk list refers to a chunk \<open>c9\<close> that
  does not exist, after the collection, the main item and the chunk \<open>c1\<close> were written.
\<close>

theorem create_collection_all_or_nothing_witness:
  "CollectionSerializer_create scenario_schema
     ((scenario_collection (Some 7))\<lparr>cd_content := scenario_r1\<lparr>rd_chunks_relation :=
        [Tuple2 ''c1'' [104, 101, 108, 108, 111], Tuple1 ''c9'']\<rparr>\<rparr>)
     empty_state
     = (Inl DoesNotExist, empty_state\<lparr>next_pk := 4, storage := [[104, 101, 108, 108, 111]]\<rparr>)
   \<and> tables (empty_state\<lparr>next_pk := 4, storage := [[104, 101, 108, 108, 111]]\<rparr>)
       = tables empty_state"
proof -
  have h: "CollectionSerializer_create scenario_schema
     ((scenario_collection (Some 7))\<lparr>cd_content := scenario_r1\<lparr>rd_chunks_relation :=
        [Tuple2 ''c1'' [104, 101, 108, 108, 111], Tuple1 ''c9'']\<rparr>\<rparr>)
     empty_state
     = (Inl DoesNotExist, empty_state\<lparr>next_pk := 4, storage := [[104, 101, 108, 108, 111]]\<rparr>)"
    by code_simp
  from create_collection_all_or_nothing[OF h] h show ?thesis by (intro conjI)
qed

text \<open>
  Claim C5. After a successful \<open>CollectionSerializer.create\<close> the collection row names
  a main item whose uid and encryption key are \<open>None\<close> and whose version is the
  collection's, and there is a member row for the supplied owner with access level
  \<open>ADMIN\<close> and the supplied encryption key.
\<close>

theorem create_collection_main_item_and_owner:
  assumes "CollectionSerializer_create sch vd s = (Inr instance, s')"
  shows "instance \<in> set (collections (tables s'))
       \<and> col_version instance = cd_version vd
       \<and> (\<exists>main \<in> set (items (tables s')).
             col_mainItem instance = Some (item_id main) \<and> item_uid main = None
             \<and> item_encryptionKey main = None \<and> item_version main = col_version instance)
       \<and> (\<exists>m \<in> set (members (tables s')).
             mem_collection m = col_id instance \<and> mem_user m = cd_owner vd
             \<and> mem_accessLevel m = ADMIN \<and> mem_encryptionKey m = cd_encryptionKey vd)"
proof -
  from assms obtain saved main_item revision member s1 s2 s3 s4 where
    l1: "Collection_insert sch (cd_uid vd) (cd_version vd) (cd_owner vd) s = (Inr saved, s1)" and
    l2: "CollectionItem_insert sch None None (col_version saved) (Some (col_id saved)) s1
           = (Inr main_item, s2)" and
    inst: "instance = saved\<lparr>col_mainItem := Some (item_id main_item)\<rparr>" and
    l3: "process_revisions_for_item sch (item_id main_item) (cd_content vd) s2
           = (Inr revision, s3)" and
    l4: "Collection_update sch instance s3 = (Inr (), s4)" and
    l5: "CollectionMember_insert sch (col_id instance) (cd_owner vd) ADMIN
           (cd_encryptionKey vd) s4 = (Inr member, s')"
    by (rule CollectionSerializer_create_Inr)
  note r1 = Collection_insert_Inr[OF l1]
  note f2 = CollectionItem_insert_frame[OF l2] and r2 = CollectionItem_insert_Inr[OF l2]
  note f3 = process_revisions_for_item_frame[OF l3]
  note f4 = Collection_update_frame[OF l4] and r4 = Collection_update_Inr[OF l4]
  note f5 = CollectionMember_insert_frame[OF l5] and r5 = CollectionMember_insert_Inr[OF l5]
  have "saved \<in> set (collections (tables s3))" using r1 f2 f3 by simp
  then have "instance \<in> set (collections (tables s4))"
    unfolding r4 using inst by (force simp: image_iff)
  then have c: "instance \<in> set (collections (tables s'))" using f5 by simp
  have v: "col_version instance = cd_version vd" using inst r1 by simp
  have "main_item \<in> set (items (tables s'))" using r2 f3 f4 f5 by simp
  moreover have "col_mainItem instance = Some (item_id main_item)" using inst by simp
  moreover have "item_uid main_item = None" "item_encryptionKey main_item = None"
    "item_version main_item = col_version instance" using r2 inst by simp_all
  ultimately have i: "\<exists>main \<in> set (items (tables s')).
             col_mainItem instance = Some (item_id main) \<and> item_uid main = None
             \<and> item_encryptionKey main = None \<and> item_version main = col_version instance"
    by blast
  have "member \<in> set (members (tables s'))" using r5 by simp
  with r5 have m: "\<exists>m \<in> set (members (tables s')).
             mem_collection m = col_id instance \<and> mem_user m = cd_owner vd
             \<and> mem_accessLevel m = ADMIN \<and> mem_encryptionKey m = cd_encryptionKey vd"
    by blast
  from c v i m show ?thesis by blast
qed


theorem create_collection_main_item_and_owner_witness:
  "CollectionSerializer_create scenario_schema (scenario_collection (Some 7)) empty_state
     = (Inr scenario_collection_row, scenario_collection_created)
   \<and> scenario_collection_row \<in> set (collections (tables scenario_collection_created))
   \<and> col_version scenario_collection_row = cd_version (scenario_collection (Some 7))
   \<and> (\<exists>main \<in> set (items (tables scenario_collection_created)).
         col_mainItem scenario_collection_row = Some (item_id main) \<and> item_uid main = None
         \<and> item_encryptionKey main = None
         \<and> item_version main = col_version scenario_collection_row)
   \<and> (\<exists>m \<in> set (members (tables scenario_collection_created)).
         mem_collection m = col_id scenario_collection_row
         \<and> mem_user m = cd_owner (scenario_collection (Some 7))
         \<and> mem_accessLevel m = ADMIN
         \<and> mem_encryptionKey m = cd_encryptionKey (scenario_collection (Some 7)))"
proof -
  have h: "CollectionSerializer_create scenario_schema (scenario_collection (Some 7)) empty_state
     = (Inr scenario_collection_row, scenario_collection_created)"
    by code_simp
  from create_collection_main_item_and_owner[OF h] h show ?thesis by (intro conjI) blast+
qed

text \<open>
  Claim C6. When the loop reaches an element with inline bytes whose uid names an existing
  chunk, processing the revision fails and the bytes stored for that chunk stay as they were.
  The serializer itself does not look for the uid: the failure is the \<open>IntegrityError\<close>
  of the \<open>INSERT\<close> (the specification's \<open>DuplicateChunkError\<close>), raised when
  the constraints of the chunk table keep the uid unique. The elements before it are
  \<open>pre\<close>, processed without error.
\<close>

theorem duplicate_inline_chunk_rejected:
  assumes uniq: "\<And>d row. chunk_constraint sch d row \<Longrightarrow> chunk_uid_unique d row"
    and pre: "chunks_loop sch item pre [] s = (Inr objs, s1)"
    and c: "c \<in> set (chunks (tables s1))" "chunk_uid c = uid"
  shows "\<exists>s'. process_revisions_for_item sch item
                (rd\<lparr>rd_chunks_relation := pre @ Tuple2 uid content # post\<rparr>) s
              = (Inl IntegrityError, s')
           \<and> c \<in> set (chunks (tables s'))
           \<and> (\<forall>b. storage_open s1 (chunk_chunkFile c) = Some b
                 \<longrightarrow> storage_open s' (chunk_chunkFile c) = Some b)"
proof -
  obtain r s2 where new: "CollectionItemChunk_new sch uid item content s1 = (r, s2)"
    by (cases "CollectionItemChunk_new sch uid item content s1") blast
  have "r = Inl IntegrityError \<and> tables s2 = tables s1"
  proof (cases r)
    case (Inl e)
    with new show ?thesis by (simp add: CollectionItemChunk_new_Inl)
  next
    case (Inr obj)
    from CollectionItemChunk_new_Inr[OF new[unfolded Inr]]
    have "chunk_constraint sch (tables s1) obj" "chunk_uid obj = uid" by simp_all
    with uniq have "filter (\<lambda>x. chunk_uid x = uid) (chunks (tables s1)) = []"
      by (auto simp: chunk_uid_unique_def)
    with c have False by (auto simp: filter_empty_conv)
    then show ?thesis ..
  qed
  then have r: "r = Inl IntegrityError" and t: "tables s2 = tables s1" by simp_all
  have "chunks_loop sch item (pre @ Tuple2 uid content # post) [] s = (Inl IntegrityError, s2)"
    by (simp add: chunks_loop_append pre new r)
  then have "process_revisions_for_item sch item
                (rd\<lparr>rd_chunks_relation := pre @ Tuple2 uid content # post\<rparr>) s
              = (Inl IntegrityError, s2)"
    by (simp add: process_revisions_for_item_def)
  moreover have "c \<in> set (chunks (tables s2))" using c t by simp
  moreover have "\<forall>b. storage_open s1 (chunk_chunkFile c) = Some b
                 \<longrightarrow> storage_open s2 (chunk_chunkFile c) = Some b"
    using CollectionItemChunk_new_frame(7)[OF new] by (auto intro: storage_open_append)
  ultimately show ?thesis by blast
qed


text \<open>
  The witness: the chunk \<open>c1\<close> of the scenario exists, and a chunk list sends
  \<open>c1\<close> again with other bytes.
\<close>

theorem duplicate_inline_chunk_rejected_witness:
  "\<exists>s'. process_revisions_for_item scenario_schema 1
           (scenario_r2\<lparr>rd_chunks_relation := [] @ Tuple2 ''c1'' [33] # [Tuple1 ''c1'']\<rparr>)
           scenario_created
         = (Inl IntegrityError, s')
      \<and> \<lparr>chunk_id = 2, chunk_uid = ''c1'', chunk_item = 1, chunk_chunkFile = 0\<rparr>
            \<in> set (chunks (tables s'))
      \<and> storage_open s' 0 = Some [104, 101, 108, 108, 111]"
proof -
  have u: "chunk_uid_unique d row" if "chunk_constraint scenario_schema d row" for d row
    using that by (simp add: scenario_schema_def)
  have p: "chunks_loop scenario_schema 1 [] [] scenario_created = (Inr [], scenario_created)"
    by simp
  have c: "\<lparr>chunk_id = 2, chunk_uid = ''c1'', chunk_item = 1, chunk_chunkFile = 0\<rparr>
         \<in> set (chunks (tables scenario_created))"
    by (simp add: scenario_created_def)
  have n: "chunk_uid \<lparr>chunk_id = 2, chunk_uid = ''c1'', chunk_item = 1, chunk_chunkFile = 0\<rparr>
         = ''c1''"
    by simp
  have o: "storage_open scenario_created 0 = Some [104, 101, 108, 108, 111]"
    by (simp add: storage_open_def scenario_created_def)
  from duplicate_inline_chunk_rejected[where rd = scenario_r2 and content = "[33]"
         and post = "[Tuple1 ''c1'']", OF u p c n]
  obtain s' where
    "process_revisions_for_item scenario_schema 1
           (scenario_r2\<lparr>rd_chunks_relation := [] @ Tuple2 ''c1'' [33] # [Tuple1 ''c1'']\<rparr>)
           scenario_created
         = (Inl IntegrityError, s')"
    "\<lparr>chunk_id = 2, chunk_uid = ''c1'', chunk_item = 1, chunk_chunkFile = 0\<rparr>
            \<in> set (chunks (tables s'))"
    "\<forall>b. storage_open scenario_created 0 = Some b \<longrightarrow> storage_open s' 0 = Some b"
    by auto
  with o show ?thesis by blast
qed

text \<open>
  Claim C7. The relation rows that \<open>process_revisions_for_item\<close> creates for the new
  revision are appended in the order of the chunk list: they all belong to the revision, their
  primary keys increase, and the chunks they point to carry the uids of the list, element by
  element, whether the element created its chunk or referred to one.
\<close>

theorem chunk_relations_in_input_order:
  assumes "process_revisions_for_item sch item rd s = (Inr revision, s')"
  shows "\<exists>new objs. relations (tables s') = relations (tables s) @ new
           \<and> map rel_revision new = replicate (length (rd_chunks_relation rd)) (rev_id revision)
           \<and> sorted_wrt (<) (map rel_id new)
           \<and> map rel_chunk new = map chunk_id objs
           \<and> set objs \<subseteq> set (chunks (tables s'))
           \<and> map chunk_uid objs = map tuple_uid (rd_chunks_relation rd)"
proof -
  from assms obtain objs s1 s2 where
    l1: "chunks_loop sch item (rd_chunks_relation rd) [] s = (Inr objs, s1)" and
    l2: "CollectionItemRevision_create sch rd item s1 = (Inr revision, s2)" and
    l3: "relations_loop sch objs revision s2 = (Inr (), s')"
    by (rule process_revisions_for_item_Inr)
  note f1 = chunks_loop_frame[OF l1]
  note f2 = CollectionItemRevision_create_frame[OF l2]
  note f3 = relations_loop_frame[OF l3]
  from chunks_loop_Inr[OF l1] have
    objs: "map chunk_uid objs = map tuple_uid (rd_chunks_relation rd)"
          "set objs \<subseteq> set (chunks (tables s1))" by auto
  then have len: "length objs = length (rd_chunks_relation rd)"
    by (metis length_map)
  from relations_loop_Inr[OF l3] obtain new where
    new: "relations (tables s') = relations (tables s2) @ new"
         "map rel_chunk new = map chunk_id objs"
         "map rel_revision new = replicate (length objs) (rev_id revision)"
         "sorted_wrt (<) (map rel_id new)"
    by blast
  have "relations (tables s') = relations (tables s) @ new" using new f1 f2 by simp
  moreover have "set objs \<subseteq> set (chunks (tables s'))" using objs f2 f3 by simp
  ultimately show ?thesis using new objs len by auto
qed


theorem chunk_relations_in_input_order_witness:
  "process_revisions_for_item scenario_schema 1 scenario_r3 scenario_inserted
     = (Inr scenario_r3_row, scenario_r3_state)
   \<and> (\<exists>new objs. relations (tables scenario_r3_state)
                     = relations (tables scenario_inserted) @ new
         \<and> map rel_revision new
             = replicate (length (rd_chunks_relation scenario_r3)) (rev_id scenario_r3_row)
         \<and> sorted_wrt (<) (map rel_id new)
         \<and> map rel_chunk new = map chunk_id objs
         \<and> set objs \<subseteq> set (chunks (tables scenario_r3_state))
         \<and> map chunk_uid objs = map tuple_uid (rd_chunks_relation scenario_r3))"
proof -
  have h: "process_revisions_for_item scenario_schema 1 scenario_r3 scenario_inserted
     = (Inr scenario_r3_row, scenario_r3_state)"
    by code_simp
  from chunk_relations_in_input_order[OF h] h show ?thesis by (intro conjI)
qed

text \<open>
  Claim C1. After any sequence of requests, starting from the empty database, every item has
  exactly one revision with \<open>current = True\<close>. A request that fails is rolled back, so
  the sequences of the claim, in which every operation succeeds, are among these. The
  serializers never set \<open>current\<close>: a new revision is current by the default of the
  field, which has to be \<open>True\<close>.
\<close>

theorem exactly_one_current_revision:
  assumes "revision_current_default sch = Some True"
    and "i \<in> set (items (tables (handle_all sch reqs empty_state)))"
  shows "length (current_revisions (handle_all sch reqs empty_state) (item_id i)) = 1"
  using single_current_handle_all[OF assms(1) pk_invariant_empty single_current_empty, of reqs]
    assms(2)
  by (simp add: single_current_def)


theorem exactly_one_current_revision_witness:
  "revision_current_default scenario_schema = Some True
   \<and> scenario_item_row \<in> set (items (tables (handle_all scenario_schema
         [ItemCreate (scenario_item scenario_r1),
          ItemUpdate scenario_item_row (scenario_item scenario_r2)] empty_state)))
   \<and> length (current_revisions (handle_all scenario_schema
         [ItemCreate (scenario_item scenario_r1),
          ItemUpdate scenario_item_row (scenario_item scenario_r2)] empty_state)
         (item_id scenario_item_row)) = 1"
proof -
  have d: "revision_current_default scenario_schema = Some True"
    by (simp add: scenario_schema_def)
  have i: "scenario_item_row \<in> set (items (tables (handle_all scenario_schema
         [ItemCreate (scenario_item scenario_r1),
          ItemUpdate scenario_item_row (scenario_item scenario_r2)] empty_state)))"
    by code_simp
  from exactly_one_current_revision[OF d i] d i show ?thesis by (intro conjI)
qed

text \<open>
  Claim C10. In every state \<open>s\<close> the requests reach, take the revisions of the table
  whose item is an item of the collection. When there is none, \<open>get_ctag\<close> returns
  \<open>None\<close>; otherwise it returns the uid of the last of them. The table is in creation
  order, rows being appended, so that revision is the one created last; it also carries the
  greatest primary key among them.
\<close>

theorem ctag_is_last_created_revision:
  assumes "s = handle_all sch reqs empty_state"
  shows "CollectionSerializer_get_ctag s obj =
     (case filter (\<lambda>r. \<exists>i \<in> set (items (tables s)).
                        item_id i = rev_item r \<and> item_collection i = Some (col_id obj))
             (revisions (tables s)) of
        [] \<Rightarrow> None
      | r # rs \<Rightarrow> Some (rev_uid (last (r # rs))))
   \<and> (\<forall>r \<in> set (revisions (tables s)). \<forall>i \<in> set (items (tables s)).
         item_id i = rev_item r \<and> item_collection i = Some (col_id obj) \<longrightarrow>
         rev_id r \<le> rev_id (last
           (filter (\<lambda>r. \<exists>i \<in> set (items (tables s)).
                        item_id i = rev_item r \<and> item_collection i = Some (col_id obj))
              (revisions (tables s)))))"
proof -
  let ?qs = "filter (\<lambda>r. \<exists>i \<in> set (items (tables s)).
                        item_id i = rev_item r \<and> item_collection i = Some (col_id obj))
             (revisions (tables s))"
  have inv: "pk_invariant s"
    unfolding assms by (rule pk_invariant_handle_all[OF pk_invariant_empty])
  have q: "collection_revisions s obj = ?qs" by (rule collection_revisions_members)
  have srt: "sorted_wrt (<) (map rev_id ?qs)"
    using collection_revisions_sorted[OF inv, of obj] unfolding q .
  have 1: "CollectionSerializer_get_ctag s obj =
     (case ?qs of [] \<Rightarrow> None | r # rs \<Rightarrow> Some (rev_uid (last (r # rs))))"
    using revisions_last_sorted[OF srt]
    by (cases ?qs) (simp_all add: CollectionSerializer_get_ctag_def q)
  have 2: "rev_id r \<le> rev_id (last ?qs)"
    if "r \<in> set (revisions (tables s))" "i \<in> set (items (tables s))"
       "item_id i = rev_item r \<and> item_collection i = Some (col_id obj)" for r i
  proof -
    from that have "r \<in> set ?qs" by auto
    from sorted_wrt_less_last[OF srt this] show ?thesis .
  qed
  from 1 2 show ?thesis by blast
qed

text \<open>
  The witness: the last revision of the first collection is \<open>r2\<close>, created after the
  second collection's only revision \<open>r9\<close>; the third collection has none.
\<close>

theorem ctag_is_last_created_revision_witness:
  "CollectionSerializer_get_ctag (handle_all scenario_schema scenario_requests empty_state)
     scenario_collection_row = Some ''r2''
   \<and> CollectionSerializer_get_ctag (handle_all scenario_schema scenario_requests empty_state)
       scenario_collection2_row = Some ''r9''
   \<and> CollectionSerializer_get_ctag (handle_all scenario_schema scenario_requests empty_state)
       scenario_collection3_row = None"
proof -
  note t = ctag_is_last_created_revision[OF refl, THEN conjunct1]
  show ?thesis unfolding t by code_simp
qed


end
